theory Spec2Isabelle
  imports Complex_Main "HOL-Library.FSet" "HOL-Library.Finite_Map" "HOL-Library.Sublist"
    "HOL-Library.Log_Nat"
begin

section \<open>Python values, exceptions and arithmetic\<close>

text \<open>
  The evaluation script works on documents produced by \<^verbatim>\<open>json.load\<close>: nested
  dicts, lists, strings, numbers, booleans and \<^verbatim>\<open>None\<close>. A dict is kept as the list
  of its items in insertion order (keys distinct, as in a loaded dict). Strings are HOL
  strings, read as sequences of the code points U+0000 to U+00FF. The scores are Python
  floats. They are read twice below: in exact arithmetic, which leaves the rounding out
  and serves the properties that do not depend on it, and in double arithmetic, where
  every operation rounds to the nearest double.
\<close>

datatype py_error =
    AttributeError
  | TypeError
  | ZeroDivisionError
  | JSONDecodeError string
  | RecursionError
  | PyException string
  | SystemExit int

datatype json =
    JNull
  | JBool bool
  | JInt int
  | JFloat real
  | JStr string
  | JArr "json list"
  | JObj "(string \<times> json) list"

type_synonym artifact_key = "string \<times> string"

definition py_bind :: "py_error + 'a \<Rightarrow> ('a \<Rightarrow> py_error + 'b) \<Rightarrow> py_error + 'b" where
  "py_bind m f = (case m of Inl e \<Rightarrow> Inl e | Inr x \<Rightarrow> f x)"

text \<open>Truth value testing, as \<^verbatim>\<open>if x\<close> and \<^verbatim>\<open>x or y\<close> do it.\<close>

fun py_truthy :: "json \<Rightarrow> bool" where
  "py_truthy JNull = False"
| "py_truthy (JBool b) = b"
| "py_truthy (JInt i) = (i \<noteq> 0)"
| "py_truthy (JFloat x) = (x \<noteq> 0)"
| "py_truthy (JStr s) = (s \<noteq> [])"
| "py_truthy (JArr xs) = (xs \<noteq> [])"
| "py_truthy (JObj kvs) = (kvs \<noteq> [])"

definition py_or :: "json \<Rightarrow> json \<Rightarrow> json" where
  "py_or x y = (if py_truthy x then x else y)"

text \<open>\<^verbatim>\<open>x.get(k, d)\<close>: only a dict has the method.\<close>

fun py_get :: "json \<Rightarrow> string \<Rightarrow> json \<Rightarrow> py_error + json" where
  "py_get (JObj kvs) k d = Inr (case map_of kvs k of None \<Rightarrow> d | Some v \<Rightarrow> v)"
| "py_get _ k d = Inl AttributeError"

text \<open>
  \<^verbatim>\<open>for a in x\<close>: a list gives its elements, a string its characters, a dict its
  keys; \<^verbatim>\<open>None\<close>, booleans and numbers are not iterable.
\<close>

fun py_iter :: "json \<Rightarrow> py_error + json list" where
  "py_iter (JArr xs) = Inr xs"
| "py_iter (JStr s) = Inr (map (\<lambda>c. JStr [c]) s)"
| "py_iter (JObj kvs) = Inr (map (\<lambda>kv. JStr (fst kv)) kvs)"
| "py_iter _ = Inl TypeError"

text \<open>\<^verbatim>\<open>len(x)\<close>.\<close>

fun py_len :: "json \<Rightarrow> py_error + nat" where
  "py_len (JArr xs) = Inr (length xs)"
| "py_len (JStr s) = Inr (length s)"
| "py_len (JObj kvs) = Inr (length kvs)"
| "py_len _ = Inl TypeError"

subsection \<open>String methods\<close>

text \<open>
  \<^verbatim>\<open>str.isspace\<close> on one character: among U+0000 to U+00FF the white space is
  U+0009 to U+000D, U+001C to U+0020, U+0085 and U+00A0.
\<close>

definition py_isspace :: "char \<Rightarrow> bool" where
  "py_isspace c =
     (let n = of_char c :: nat
      in (9 \<le> n \<and> n \<le> 13) \<or> (28 \<le> n \<and> n \<le> 32) \<or> n = 133 \<or> n = 160)"

definition py_strip :: "string \<Rightarrow> string" where
  "py_strip s = rev (dropWhile py_isspace (rev (dropWhile py_isspace s)))"

text \<open>
  \<^verbatim>\<open>str.lower\<close>: A to Z, and the upper-case letters U+00C0 to U+00DE (U+00D7, the
  multiplication sign, is not a letter), move 32 code points up.
\<close>

definition py_lower_char :: "char \<Rightarrow> char" where
  "py_lower_char c =
     (let n = of_char c :: nat
      in if (65 \<le> n \<and> n \<le> 90) \<or> (192 \<le> n \<and> n \<le> 222 \<and> n \<noteq> 215)
         then char_of (n + 32) else c)"

definition py_lower :: "string \<Rightarrow> string" where
  "py_lower s = map py_lower_char s"

text \<open>\<^verbatim>\<open>x.strip()\<close> on a value that may not be a string.\<close>

fun str_strip :: "json \<Rightarrow> py_error + string" where
  "str_strip (JStr s) = Inr (py_strip s)"
| "str_strip _ = Inl AttributeError"

text \<open>The operator \<^verbatim>\<open>/\<close>: true division, raising on a zero divisor.\<close>

definition py_truediv :: "real \<Rightarrow> real \<Rightarrow> py_error + real" where
  "py_truediv a b = (if b = 0 then Inl ZeroDivisionError else Inr (a / b))"

section \<open>Building the comparison sets (evaluate.py)\<close>

text \<open>
  Both builders of the script normalise an artifact entry with the same two lines:
  \<^verbatim>\<open>a_type = (a.get('type') or '').strip().lower()\<close> and
  \<^verbatim>\<open>a_val = (a.get('value') or '').strip()\<close>.
\<close>

definition artifact_identity :: "json \<Rightarrow> py_error + artifact_key" where
  "artifact_identity a =
     py_bind (py_get a ''type'' JNull) (\<lambda>t.
     py_bind (str_strip (py_or t (JStr []))) (\<lambda>t_stripped.
     py_bind (py_get a ''value'' JNull) (\<lambda>v.
     py_bind (str_strip (py_or v (JStr []))) (\<lambda>a_val.
       Inr (py_lower t_stripped, a_val)))))"

fun artifact_loop :: "json list \<Rightarrow> artifact_key fset \<Rightarrow> py_error + artifact_key fset" where
  "artifact_loop [] result = Inr result"
| "artifact_loop (a # rest) result =
     (case artifact_identity a of
        Inl e \<Rightarrow> Inl e
      | Inr (a_type, a_val) \<Rightarrow>
          artifact_loop rest
            (if a_type \<noteq> [] \<and> a_val \<noteq> [] then finsert (a_type, a_val) result else result))"

definition to_artifact_set :: "json \<Rightarrow> py_error + artifact_key fset" where
  "to_artifact_set artifacts_obj =
     py_bind (case artifacts_obj of
                JObj _ \<Rightarrow> py_get artifacts_obj ''artifacts'' (JArr [])
              | _ \<Rightarrow> Inr (JArr [])) (\<lambda>artifacts.
     py_bind (py_iter artifacts) (\<lambda>items. artifact_loop items {||}))"

fun phase_artifacts_loop ::
  "json list \<Rightarrow> json \<Rightarrow> (artifact_key, json) fmap \<Rightarrow> py_error + (artifact_key, json) fmap" where
  "phase_artifacts_loop [] phase_name mapping = Inr mapping"
| "phase_artifacts_loop (a # rest) phase_name mapping =
     (case artifact_identity a of
        Inl e \<Rightarrow> Inl e
      | Inr (a_type, a_val) \<Rightarrow>
          phase_artifacts_loop rest phase_name
            (if a_type \<noteq> [] \<and> a_val \<noteq> [] \<and> py_truthy phase_name
             then fmupd (a_type, a_val) phase_name mapping else mapping))"

fun phases_loop ::
  "json list \<Rightarrow> (artifact_key, json) fmap \<Rightarrow> py_error + (artifact_key, json) fmap" where
  "phases_loop [] mapping = Inr mapping"
| "phases_loop (p # rest) mapping =
     (case py_get p ''phase'' (JStr []) of
        Inl e \<Rightarrow> Inl e
      | Inr phase_name \<Rightarrow>
     (case py_get p ''artifacts'' (JArr []) of
        Inl e \<Rightarrow> Inl e
      | Inr group_artifacts \<Rightarrow>
     (case py_iter (py_or group_artifacts (JArr [])) of
        Inl e \<Rightarrow> Inl e
      | Inr items \<Rightarrow>
     (case phase_artifacts_loop items phase_name mapping of
        Inl e \<Rightarrow> Inl e
      | Inr mapping' \<Rightarrow> phases_loop rest mapping'))))"

definition to_phase_map :: "json \<Rightarrow> py_error + (artifact_key, json) fmap" where
  "to_phase_map kill_chain_obj =
     py_bind (case kill_chain_obj of
                JObj _ \<Rightarrow> py_get kill_chain_obj ''kill_chain_mapping'' (JArr [])
              | _ \<Rightarrow> Inr (JArr [])) (\<lambda>phases.
     py_bind (py_iter phases) (\<lambda>groups. phases_loop groups fmempty))"

section \<open>Scoring (evaluate.py)\<close>

text \<open>
  Lines 52 to 59 and 62 to 67 in exact arithmetic: the quotients are the real quotients,
  not yet rounded. The reading in doubles follows in the next section.
\<close>

definition precision_recall_f1 ::
  "artifact_key fset \<Rightarrow> artifact_key fset \<Rightarrow> py_error + (real \<times> real \<times> real)" where
  "precision_recall_f1 pred truth =
     (let tp = fcard (pred |\<inter>| truth);
          fp = fcard (pred |-| truth);
          fn = fcard (truth |-| pred)
      in case (if tp + fp > 0 then py_truediv (real tp) (real (tp + fp)) else Inr 0) of
           Inl e \<Rightarrow> Inl e
         | Inr precision \<Rightarrow>
        (case (if tp + fn > 0 then py_truediv (real tp) (real (tp + fn)) else Inr 0) of
           Inl e \<Rightarrow> Inl e
         | Inr recall \<Rightarrow>
        (case (if precision + recall > 0
               then py_truediv (2 * precision * recall) (precision + recall) else Inr 0) of
           Inl e \<Rightarrow> Inl e
         | Inr f1 \<Rightarrow> Inr (precision, recall, f1))))"

text \<open>
  \<^verbatim>\<open>pred_map.get(k) == truth_map.get(k)\<close> compares phase labels; on strings,
  Python's \<^verbatim>\<open>==\<close> is equality of the character sequences, which is what the
  model compares. At other label types Python's \<^verbatim>\<open>==\<close> is coarser than equality
  of values (\<^verbatim>\<open>True == 1\<close>, \<^verbatim>\<open>1 == 1.0\<close>); what is stated about agreeing labels
  below is stated for string labels.
\<close>

definition mapping_accuracy ::
  "(artifact_key, 'v) fmap \<Rightarrow> (artifact_key, 'v) fmap \<Rightarrow> py_error + real" where
  "mapping_accuracy pred_map truth_map =
     (let keys = fmdom truth_map |\<inter>| fmdom pred_map in
      if keys = {||} then Inr 0
      else
        let correct = fcard (ffilter (\<lambda>k. fmlookup pred_map k = fmlookup truth_map k) keys)
        in py_truediv (real correct) (real (fcard keys)))"

section \<open>The formulas of the specification\<close>

text \<open>
  The specification gives the scores as guarded quotients: \<open>tp/(tp+other)\<close> when the
  denominator is positive and \<open>0\<close> otherwise, and the harmonic mean
  \<open>2pr/(p+r)\<close> under the same guard. These two definitions follow its words; the
  scoring functions above are compared with them.
\<close>

definition spec_ratio :: "nat \<Rightarrow> nat \<Rightarrow> real" where
  "spec_ratio tp other = (if tp + other > 0 then real tp / real (tp + other) else 0)"

definition spec_f1 :: "real \<Rightarrow> real \<Rightarrow> real" where
  "spec_f1 p r = (if p + r > 0 then 2 * p * r / (p + r) else 0)"

section \<open>Scoring in double arithmetic (evaluate.py)\<close>

text \<open>
  A finite double is a rational \<open>n * 2 ^ e\<close> whose significand \<open>n\<close> has at most 53
  bits. \<open>round_double\<close> rounds a rational to the nearest such number, ties to the even
  significand: \<open>ilog2\<close> finds the binade of the magnitude, the magnitude is scaled to
  a significand between \<open>2 ^ 52\<close> and \<open>2 ^ 53\<close>, and the significand is rounded to an
  integer. The range of the exponent is not modelled: no overflow and no underflow
  arises in the scores, whose non-zero values lie between \<open>2 ^ -130\<close> and \<open>2\<close> for
  sets of fewer than \<open>2 ^ 63\<close> elements. True division of two ints, and addition,
  multiplication and division of two floats, each give the correctly rounded result.
\<close>

definition ilog2 :: "rat \<Rightarrow> int" where
  "ilog2 x =
     (let k = bitlen (fst (quotient_of x)) - bitlen (snd (quotient_of x))
      in if 2 powi k \<le> x then k else k - 1)"

definition round_half_even :: "rat \<Rightarrow> int" where
  "round_half_even x =
     (let n = \<lfloor>x\<rfloor>; d = x - of_int n
      in if d < 1 / 2 then n else if 1 / 2 < d then n + 1 else if even n then n else n + 1)"

definition round_double :: "rat \<Rightarrow> rat" where
  "round_double x =
     (if x = 0 then 0
      else let e = ilog2 \<bar>x\<bar> - 52
           in sgn x * of_int (round_half_even (\<bar>x\<bar> / 2 powi e)) * 2 powi e)"

definition int_truediv :: "int \<Rightarrow> int \<Rightarrow> py_error + rat" where
  "int_truediv a b =
     (if b = 0 then Inl ZeroDivisionError else Inr (round_double (of_int a / of_int b)))"

definition float_truediv :: "rat \<Rightarrow> rat \<Rightarrow> py_error + rat" where
  "float_truediv x y = (if y = 0 then Inl ZeroDivisionError else Inr (round_double (x / y)))"

definition float_mul :: "rat \<Rightarrow> rat \<Rightarrow> rat" where
  "float_mul x y = round_double (x * y)"

definition float_add :: "rat \<Rightarrow> rat \<Rightarrow> rat" where
  "float_add x y = round_double (x + y)"

definition precision_recall_f1_double ::
  "artifact_key fset \<Rightarrow> artifact_key fset \<Rightarrow> py_error + (rat \<times> rat \<times> rat)" where
  "precision_recall_f1_double pred truth =
     (let tp = int (fcard (pred |\<inter>| truth));
          fp = int (fcard (pred |-| truth));
          fn = int (fcard (truth |-| pred))
      in case (if tp + fp > 0 then int_truediv tp (tp + fp) else Inr 0) of
           Inl e \<Rightarrow> Inl e
         | Inr precision \<Rightarrow>
        (case (if tp + fn > 0 then int_truediv tp (tp + fn) else Inr 0) of
           Inl e \<Rightarrow> Inl e
         | Inr recall \<Rightarrow>
        (case (if float_add precision recall > 0
               then float_truediv (float_mul (float_mul 2 precision) recall)
                      (float_add precision recall)
               else Inr 0) of
           Inl e \<Rightarrow> Inl e
         | Inr f1 \<Rightarrow> Inr (precision, recall, f1))))"

text \<open>The formulas of the scores with every operation rounded.\<close>

definition double_ratio :: "nat \<Rightarrow> nat \<Rightarrow> rat" where
  "double_ratio tp other =
     (if tp + other = 0 then 0 else round_double (of_nat tp / of_nat (tp + other)))"

definition double_f1 :: "rat \<Rightarrow> rat \<Rightarrow> rat" where
  "double_f1 p r =
     (if p + r = 0 then 0
      else round_double (round_double (round_double (2 * p) * r) / round_double (p + r)))"

section \<open>Well-formed documents and the specification's reading of them\<close>

text \<open>
  The data model of the specification gives an artifact a \<open>type\<close> and a \<open>value\<close>
  that are strings and may be absent. A field in that shape (absent, a string, or a
  falsy value such as \<^verbatim>\<open>null\<close>, which \<^verbatim>\<open>or ''\<close> replaces by the empty string)
  is a text field, and \<open>field_text\<close> is the string it stands for.
\<close>

fun text_field :: "json option \<Rightarrow> bool" where
  "text_field None = True"
| "text_field (Some (JStr s)) = True"
| "text_field (Some x) = (\<not> py_truthy x)"

fun field_text :: "json option \<Rightarrow> string" where
  "field_text (Some (JStr s)) = s"
| "field_text _ = []"

definition wf_artifact :: "json \<Rightarrow> bool" where
  "wf_artifact a =
     (case a of
        JObj fields \<Rightarrow> text_field (map_of fields ''type'') \<and> text_field (map_of fields ''value'')
      | _ \<Rightarrow> False)"

text \<open>
  The sequence a document lists under a key: the elements of the list stored there,
  and nothing when the key is absent or the document is not a dict.
\<close>

definition listed :: "json \<Rightarrow> string \<Rightarrow> json list" where
  "listed obj key =
     (case obj of
        JObj fields \<Rightarrow> (case map_of fields key of Some (JArr xs) \<Rightarrow> xs | _ \<Rightarrow> [])
      | _ \<Rightarrow> [])"

definition wf_container :: "json \<Rightarrow> string \<Rightarrow> bool" where
  "wf_container obj key =
     (case obj of
        JObj fields \<Rightarrow> (case map_of fields key of None \<Rightarrow> True | Some (JArr xs) \<Rightarrow> True | Some _ \<Rightarrow> False)
      | _ \<Rightarrow> True)"

text \<open>
  A phase group is well formed when it is a dict whose \<open>artifacts\<close> entry is absent,
  falsy, or a list of well-formed artifacts; its \<open>phase\<close> may be any value.
\<close>

definition wf_group :: "json \<Rightarrow> bool" where
  "wf_group p =
     (case p of
        JObj fields \<Rightarrow>
          (case map_of fields ''artifacts'' of
             None \<Rightarrow> True
           | Some (JArr xs) \<Rightarrow> list_all wf_artifact xs
           | Some x \<Rightarrow> \<not> py_truthy x)
      | _ \<Rightarrow> False)"

text \<open>
  Stripping in the words of the specification: \<open>core\<close> is what remains of \<open>s\<close> when
  the white space at both ends is removed.
\<close>

definition spec_stripped :: "string \<Rightarrow> string \<Rightarrow> bool" where
  "spec_stripped s core =
     (\<exists>l r. s = l @ core @ r \<and> list_all py_isspace l \<and> list_all py_isspace r \<and>
        (core = [] \<or> (\<not> py_isspace (hd core) \<and> \<not> py_isspace (last core))))"

text \<open>
  The phase assignment in the words of the specification: the groups are flattened in
  list order into entries (identity pair, phase), entries with an empty type, an empty
  value or an empty phase are left out, and a pair is assigned the phase of its last
  entry.
\<close>

definition group_entries :: "json \<Rightarrow> (artifact_key \<times> json) list" where
  "group_entries p =
     (case p of
        JObj fields \<Rightarrow>
          (let phase = (case map_of fields ''phase'' of None \<Rightarrow> JStr [] | Some x \<Rightarrow> x) in
           concat (map (\<lambda>a. case artifact_identity a of
                               Inr k \<Rightarrow> (if fst k \<noteq> [] \<and> snd k \<noteq> [] \<and> py_truthy phase
                                         then [(k, phase)] else [])
                             | Inl e \<Rightarrow> [])
                       (listed p ''artifacts'')))
      | _ \<Rightarrow> [])"

definition phase_entries :: "json \<Rightarrow> (artifact_key \<times> json) list" where
  "phase_entries kill_chain_obj =
     concat (map group_entries (listed kill_chain_obj ''kill_chain_mapping''))"

definition last_phase :: "(artifact_key \<times> json) list \<Rightarrow> artifact_key \<Rightarrow> json option" where
  "last_phase entries k =
     (let mine = filter (\<lambda>e. fst e = k) entries
      in if mine = [] then None else Some (snd (last mine)))"

section \<open>Recovering JSON from a response (forensic_analyzer_backup.py)\<close>

text \<open>
  \<^verbatim>\<open>sub in s\<close>, \<^verbatim>\<open>s.find(sub, start)\<close> for \<open>start \<ge> 0\<close> (the first index at or
  after \<open>start\<close> where \<open>sub\<close> begins, or \<open>-1\<close>), and \<^verbatim>\<open>s[i:j]\<close> for
  \<open>0 \<le> i\<close> and \<open>0 \<le> j\<close>.
\<close>

fun py_in :: "string \<Rightarrow> string \<Rightarrow> bool" where
  "py_in sub [] = (sub = [])"
| "py_in sub (c # cs) = (prefix sub (c # cs) \<or> py_in sub cs)"

fun find_from :: "string \<Rightarrow> string \<Rightarrow> nat \<Rightarrow> int" where
  "find_from sub [] i = (if sub = [] then int i else - 1)"
| "find_from sub (c # cs) i = (if prefix sub (c # cs) then int i else find_from sub cs (Suc i))"

definition py_find :: "string \<Rightarrow> string \<Rightarrow> nat \<Rightarrow> int" where
  "py_find s sub start = (if start \<le> length s then find_from sub (drop start s) start else - 1)"

definition py_slice :: "string \<Rightarrow> int \<Rightarrow> int \<Rightarrow> string" where
  "py_slice s i j = take (nat j - nat i) (drop (nat i) s)"

text \<open>
  As shipped, \<^verbatim>\<open>forensic_analyzer_backup.py\<close> is not valid Python: line 37 is
  indented under line 36, which opens no block; the \<^verbatim>\<open>try\<close> of line 121 stands at
  the depth of its \<^verbatim>\<open>def\<close>; lines 138 to 141 stand at three depths. The file
  does not compile, so no call ever reaches the lines modelled here. The definitions
  below are a reading of the file, not the file: the evident re-indentation, in which
  lines 122 to 158 are the body of the outer \<^verbatim>\<open>try\<close>, and the count of the artifacts
  with its log line stands inside the inner \<^verbatim>\<open>try\<close>, between the parse and the
  \<^verbatim>\<open>return\<close> (lines 139 to 141, and again lines 153 to 155).

  \<^verbatim>\<open>json.loads\<close> is a parameter of the model: on a string it returns the parsed value
  or raises, \<^verbatim>\<open>JSONDecodeError\<close> with a message for a text that is not JSON and
  \<^verbatim>\<open>RecursionError\<close> for one nested too deeply. The chat completion call is a
  parameter as well: it returns the message content or raises. What the method prints is
  kept as a list of log lines.
\<close>

type_synonym json_loads = "string \<Rightarrow> py_error + json"

datatype log_line =
    StageStarted
  | Extracted nat
  | ParseErrorLine string
  | RawResponseLine string
  | ExtractedFromMarkdown nat
  | ExtractionErrorLine py_error

text \<open>\<^verbatim>\<open>len(artifacts_json.get('artifacts', []))\<close>, computed for the log line.\<close>

definition count_artifacts :: "json \<Rightarrow> py_error + nat" where
  "count_artifacts artifacts_json = py_bind (py_get artifacts_json ''artifacts'' (JArr [])) py_len"

text \<open>
  Lines 134 to 158 in that reading: the inner \<^verbatim>\<open>try\<close> with its handler for
  \<^verbatim>\<open>JSONDecodeError\<close>; another exception of \<^verbatim>\<open>json.loads\<close>, or one of the
  count, leaves the block. The three ways out of the handler that do not return all reach
  the same \<^verbatim>\<open>raise Exception(f"Failed to parse JSON response: {e}")\<close>.
\<close>

definition parse_response :: "json_loads \<Rightarrow> string \<Rightarrow> log_line list \<times> (py_error + json)" where
  "parse_response loads content =
     (let response_text = py_strip content in
      case loads response_text of
        Inr artifacts_json \<Rightarrow>
          (case count_artifacts artifacts_json of
             Inl x \<Rightarrow> ([], Inl x)
           | Inr artifact_count \<Rightarrow> ([Extracted artifact_count], Inr artifacts_json))
      | Inl (JSONDecodeError e) \<Rightarrow>
          (let printed = [ParseErrorLine e, RawResponseLine response_text];
               failed = (printed, Inl (PyException (''Failed to parse JSON response: '' @ e)))
           in if py_in ''```json'' response_text then
                (let json_start = py_find response_text ''```json'' 0 + 7;
                     json_end = py_find response_text ''```'' (nat json_start)
                 in if json_end > json_start then
                      (case loads (py_strip (py_slice response_text json_start json_end)) of
                         Inr artifacts_json \<Rightarrow>
                           (case count_artifacts artifacts_json of
                              Inl x \<Rightarrow> (printed, Inl x)
                            | Inr artifact_count \<Rightarrow>
                                (printed @ [ExtractedFromMarkdown artifact_count], Inr artifacts_json))
                       | Inl (JSONDecodeError e2) \<Rightarrow> failed
                       | Inl x \<Rightarrow> (printed, Inl x))
                    else failed)
              else failed)
      | Inl x \<Rightarrow> ([], Inl x))"

text \<open>
  The whole method in that reading: the outer \<^verbatim>\<open>except Exception\<close> prints the error
  and calls \<^verbatim>\<open>sys.exit(1)\<close>; \<^verbatim>\<open>SystemExit\<close> is not an \<^verbatim>\<open>Exception\<close> and
  passes through.
\<close>

definition exit_on_exception :: "log_line list \<Rightarrow> py_error \<Rightarrow> log_line list \<times> (py_error + json)" where
  "exit_on_exception printed e =
     (case e of
        SystemExit n \<Rightarrow> (printed, Inl (SystemExit n))
      | _ \<Rightarrow> (printed @ [ExtractionErrorLine e], Inl (SystemExit 1)))"

definition extract_artifacts ::
  "(string \<Rightarrow> py_error + string) \<Rightarrow> json_loads \<Rightarrow> string \<Rightarrow> log_line list \<times> (py_error + json)" where
  "extract_artifacts create loads report_text =
     (case create report_text of
        Inl e \<Rightarrow> exit_on_exception [StageStarted] e
      | Inr content \<Rightarrow>
          (case parse_response loads content of
             (printed, Inl e) \<Rightarrow> exit_on_exception (StageStarted # printed) e
           | (printed, Inr artifacts_json) \<Rightarrow> (StageStarted # printed, Inr artifacts_json)))"

text \<open>
  A stand-in for \<^verbatim>\<open>json.loads\<close> that agrees with it on the texts of the examples
  below: three valid documents, and texts that do not begin a JSON value.
\<close>

definition loads_sample :: json_loads where
  \<open>loads_sample s =
     (if s = ''{"a":1}'' then Inr (JObj [(''a'', JInt 1)])
      else if s = ''[]'' then Inr (JArr [])
      else if s = ''{"artifacts":null}'' then Inr (JObj [(''artifacts'', JNull)])
      else Inl (JSONDecodeError ''Expecting value: line 1 column 1 (char 0)''))\<close>

subsection \<open>The recovery in the words of the specification\<close>

text \<open>
  \<open>first_occurrence s sub start i\<close>: \<open>i\<close> is the first index at or after \<open>start\<close>
  where \<open>sub\<close> begins in \<open>s\<close>. The fenced payload of a text is the substring
  strictly between the first \<^verbatim>\<open>```json\<close> marker and the next \<^verbatim>\<open>```\<close> after it,
  trimmed.
\<close>

definition first_occurrence :: "string \<Rightarrow> string \<Rightarrow> nat \<Rightarrow> nat \<Rightarrow> bool" where
  "first_occurrence s sub start i =
     (start \<le> i \<and> i \<le> length s \<and> prefix sub (drop i s) \<and>
      (\<forall>k. start \<le> k \<and> k < i \<longrightarrow> \<not> prefix sub (drop k s)))"

definition fenced_payload :: "string \<Rightarrow> string \<Rightarrow> bool" where
  "fenced_payload text body =
     (\<exists>i k. first_occurrence text ''```json'' 0 i \<and> first_occurrence text ''```'' (i + 7) k \<and>
        body = py_strip (take (k - (i + 7)) (drop (i + 7) text)))"

text \<open>
  A parsed value passes the log line when it is a dict whose \<open>artifacts\<close> entry is absent
  or has a length.
\<close>

definition countable_result :: "json \<Rightarrow> bool" where
  "countable_result j =
     (case j of
        JObj fields \<Rightarrow>
          (case map_of fields ''artifacts'' of
             None \<Rightarrow> True
           | Some (JArr xs) \<Rightarrow> True
           | Some (JStr s) \<Rightarrow> True
           | Some (JObj kvs) \<Rightarrow> True
           | Some _ \<Rightarrow> False)
      | _ \<Rightarrow> False)"

section \<open>Properties of the scores\<close>

lemma spec_ratio_bounds: "0 \<le> spec_ratio a b" "spec_ratio a b \<le> 1"
  by (simp_all add: spec_ratio_def divide_le_eq)

lemma spec_f1_nonneg: "0 \<le> p \<Longrightarrow> 0 \<le> r \<Longrightarrow> 0 \<le> spec_f1 p r"
  by (simp add: spec_f1_def)

lemma spec_f1_le_one:
  assumes "0 \<le> p" "p \<le> 1" "0 \<le> r" "r \<le> 1"
  shows "spec_f1 p r \<le> 1"
proof (cases "0 < p + r")
  case True
  have "p * r \<le> p * 1" using assms by (intro mult_left_mono) simp_all
  moreover have "p * r \<le> 1 * r" using assms by (intro mult_right_mono) simp_all
  ultimately have "2 * p * r \<le> p + r" by simp
  with True show ?thesis by (simp add: spec_f1_def divide_le_eq)
next
  case False
  then show ?thesis by (simp add: spec_f1_def)
qed

lemma spec_f1_commute: "spec_f1 p r = spec_f1 r p"
  by (simp add: spec_f1_def add.commute mult.commute mult.left_commute)

text \<open>Each guard of the script keeps the division away from a zero divisor.\<close>

lemma ratio_guarded:
  "(if 0 < a + b then py_truediv (real a) (real (a + b)) else Inr 0) = Inr (spec_ratio a b)"
  by (simp add: py_truediv_def spec_ratio_def)

lemma harmonic_guarded:
  "(if 0 < p + r then py_truediv (2 * p * r) (p + r) else Inr 0) = Inr (spec_f1 p r)"
  by (simp add: py_truediv_def spec_f1_def)

lemma prf_value:
  "precision_recall_f1 pred truth =
     Inr (spec_ratio (fcard (pred |\<inter>| truth)) (fcard (pred |-| truth)),
          spec_ratio (fcard (pred |\<inter>| truth)) (fcard (truth |-| pred)),
          spec_f1 (spec_ratio (fcard (pred |\<inter>| truth)) (fcard (pred |-| truth)))
                  (spec_ratio (fcard (pred |\<inter>| truth)) (fcard (truth |-| pred))))"
  unfolding precision_recall_f1_def Let_def
  by (simp only: ratio_guarded harmonic_guarded sum.case)

text \<open>
  Claim C8. Swapping the predicted and the truth set swaps precision and recall and
  leaves F1 unchanged: when \<open>precision_recall_f1 S T\<close> returns \<open>(p, r, f)\<close>,
  \<open>precision_recall_f1 T S\<close> returns \<open>(r, p, f)\<close>; both calls return.
\<close>

theorem precision_recall_f1_swap:
  "\<exists>p r f. precision_recall_f1 S T = Inr (p, r, f) \<and> precision_recall_f1 T S = Inr (r, p, f)"
  unfolding prf_value
  by (simp add: inf_commute spec_f1_commute)

text \<open>
  Claim C10. With both sets empty, \<open>precision_recall_f1\<close> returns
  \<open>(0.0, 0.0, 0.0)\<close>, not a perfect score and not an error.
\<close>

theorem precision_recall_f1_empty:
  "precision_recall_f1 {||} {||} = Inr (0, 0, 0)"
  unfolding prf_value by (simp add: spec_ratio_def spec_f1_def)

section \<open>Properties of the scores in double arithmetic\<close>

lemma round_half_even_nearest:
  "\<bar>of_int (round_half_even y) - y\<bar> \<le> 1 / 2"
proof -
  define n where "n = \<lfloor>y\<rfloor>"
  define d where "d = y - of_int n"
  have d: "0 \<le> d" "d < 1" unfolding d_def n_def by linarith+
  have y: "y = of_int n + d" unfolding d_def by simp
  have "round_half_even y = (if d < 1 / 2 then n else if 1 / 2 < d then n + 1
      else if even n then n else n + 1)"
    unfolding round_half_even_def Let_def n_def [symmetric] d_def [symmetric] ..
  then show ?thesis using d unfolding y by (auto split: if_splits)
qed

lemma round_half_even_of_int [simp]: "round_half_even (of_int n) = n"
  by (simp add: round_half_even_def)

lemma round_half_even_ge: "of_int m \<le> y \<Longrightarrow> m \<le> round_half_even y"
proof -
  assume "of_int m \<le> y"
  then have "m \<le> \<lfloor>y\<rfloor>" by (simp add: le_floor_iff)
  moreover have "\<lfloor>y\<rfloor> \<le> round_half_even y"
    by (simp add: round_half_even_def Let_def)
  ultimately show ?thesis by simp
qed

text \<open>\<open>ilog2 x\<close> is the binade of a positive \<open>x\<close>.\<close>

lemma ilog2_bounds:
  assumes "0 < x"
  shows "2 powi ilog2 x \<le> x" and "x < 2 powi (ilog2 x + 1)"
proof -
  define a where "a = fst (quotient_of x)"
  define b where "b = snd (quotient_of x)"
  have q: "quotient_of x = (a, b)" by (simp add: a_def b_def)
  have b: "0 < b" using q by (rule quotient_of_denom_pos)
  have x: "x = of_int a / of_int b" using q by (rule quotient_of_div)
  have a: "0 < a" using assms b unfolding x by (simp add: zero_less_divide_iff)
  define la where "la = bitlen a"
  define lb where "lb = bitlen b"
  have la: "1 \<le> la" and lb: "1 \<le> lb"
    using a b bitlen_eq_zero_iff [of a] bitlen_eq_zero_iff [of b] bitlen_nonneg [of a] bitlen_nonneg [of b]
    unfolding la_def lb_def by linarith+
  from bitlen_bounds [OF a] have a1: "(2::int) ^ nat (la - 1) \<le> a" and a2: "a < 2 ^ nat la"
    unfolding la_def by simp_all
  from bitlen_bounds [OF b] have b1: "(2::int) ^ nat (lb - 1) \<le> b" and b2: "b < 2 ^ nat lb"
    unfolding lb_def by simp_all
  have ra1: "(2::rat) powi (la - 1) \<le> of_int a"
  proof -
    have "(2::rat) powi (la - 1) = of_int (2 ^ nat (la - 1))"
      using la by (simp add: power_int_def)
    also have "\<dots> \<le> of_int a" using a1 by (simp only: of_int_le_iff)
    finally show ?thesis .
  qed
  have ra2: "of_int a < (2::rat) powi la"
  proof -
    have "(of_int a :: rat) < of_int (2 ^ nat la)" using a2 by (simp only: of_int_less_iff)
    also have "\<dots> = 2 powi la" using la by (simp add: power_int_def)
    finally show ?thesis .
  qed
  have rb1: "(2::rat) powi (lb - 1) \<le> of_int b"
  proof -
    have "(2::rat) powi (lb - 1) = of_int (2 ^ nat (lb - 1))"
      using lb by (simp add: power_int_def)
    also have "\<dots> \<le> of_int b" using b1 by (simp only: of_int_le_iff)
    finally show ?thesis .
  qed
  have rb2: "of_int b < (2::rat) powi lb"
  proof -
    have "(of_int b :: rat) < of_int (2 ^ nat lb)" using b2 by (simp only: of_int_less_iff)
    also have "\<dots> = 2 powi lb" using lb by (simp add: power_int_def)
    finally show ?thesis .
  qed
  have bpos: "(0::rat) < of_int b" using b by simp
  have low: "(2::rat) powi (la - lb - 1) \<le> x"
  proof -
    have "(2::rat) powi (la - lb - 1) * of_int b \<le> 2 powi (la - lb - 1) * 2 powi lb"
      using rb2 by (intro mult_left_mono) simp_all
    also have "\<dots> = 2 powi (la - 1)"
      by (simp add: power_int_add [symmetric])
    also have "\<dots> \<le> of_int a" by (rule ra1)
    finally show ?thesis unfolding x using bpos by (simp add: pos_le_divide_eq)
  qed
  have high: "x < (2::rat) powi (la - lb + 1)"
  proof -
    have "of_int a < (2::rat) powi la" by (rule ra2)
    also have "\<dots> = 2 powi (la - lb + 1) * 2 powi (lb - 1)"
      by (simp add: power_int_add [symmetric])
    also have "\<dots> \<le> 2 powi (la - lb + 1) * of_int b"
      using rb1 by (intro mult_left_mono) simp_all
    finally show ?thesis unfolding x using bpos by (simp add: pos_divide_less_eq)
  qed
  have il: "ilog2 x = (if 2 powi (la - lb) \<le> x then la - lb else la - lb - 1)"
    unfolding ilog2_def Let_def a_def [symmetric] b_def [symmetric] la_def lb_def ..
  show "2 powi ilog2 x \<le> x"
    unfolding il using low by simp
  show "x < 2 powi (ilog2 x + 1)"
    unfolding il using high by (simp add: not_le)
qed

lemma scaled_bounds:
  assumes "0 < x"
  shows "2 ^ 52 \<le> x / 2 powi (ilog2 x - 52)" and "x / 2 powi (ilog2 x - 52) < 2 ^ 53"
proof -
  have p: "(0::rat) < 2 powi (ilog2 x - 52)" by simp
  have "(2::rat) ^ 52 * 2 powi (ilog2 x - 52) = 2 powi ilog2 x"
    using power_int_add [of "2::rat" 52 "ilog2 x - 52"] by simp
  with ilog2_bounds(1) [OF assms] show "2 ^ 52 \<le> x / 2 powi (ilog2 x - 52)"
    using p by (simp add: pos_le_divide_eq)
  have "(2::rat) ^ 53 * 2 powi (ilog2 x - 52) = 2 powi (ilog2 x + 1)"
    using power_int_add [of "2::rat" 53 "ilog2 x - 52"] by (simp add: add.commute)
  with ilog2_bounds(2) [OF assms] show "x / 2 powi (ilog2 x - 52) < 2 ^ 53"
    using p by (simp add: pos_divide_less_eq)
qed

lemma round_double_zero [simp]: "round_double 0 = 0"
  by (simp add: round_double_def)

lemma round_double_pos_eq:
  "0 < x \<Longrightarrow>
   round_double x =
     of_int (round_half_even (x / 2 powi (ilog2 x - 52))) * 2 powi (ilog2 x - 52)"
  by (simp add: round_double_def Let_def)

lemma round_double_pos:
  assumes "0 < x"
  shows "0 < round_double x"
proof -
  have "(of_int (2 ^ 52) :: rat) \<le> x / 2 powi (ilog2 x - 52)"
    using scaled_bounds(1) [OF assms] by simp
  then have "2 ^ 52 \<le> round_half_even (x / 2 powi (ilog2 x - 52))"
    by (rule round_half_even_ge)
  then have "(0::rat) < of_int (round_half_even (x / 2 powi (ilog2 x - 52)))"
    by simp
  then show ?thesis
    unfolding round_double_pos_eq [OF assms] by (intro mult_pos_pos) simp_all
qed

lemma round_double_nonneg: "0 \<le> x \<Longrightarrow> 0 \<le> round_double x"
  using round_double_pos [of x] by (cases "x = 0") (simp_all add: less_imp_le)

text \<open>The rounded value is the nearest number with a significand of 53 bits.\<close>

lemma round_double_nearest:
  assumes "0 < x"
  shows "\<exists>n. round_double x = of_int n * 2 powi (ilog2 x - 52) \<and> 2 ^ 52 \<le> n \<and> n \<le> 2 ^ 53 \<and>
           \<bar>round_double x - x\<bar> \<le> 2 powi (ilog2 x - 52) / 2"
proof -
  define u where "u = (2::rat) powi (ilog2 x - 52)"
  define y where "y = x / u"
  define n where "n = round_half_even y"
  have u: "0 < u" unfolding u_def by simp
  have rd: "round_double x = of_int n * u"
    unfolding n_def y_def u_def by (rule round_double_pos_eq [OF assms])
  have lo: "(of_int (2 ^ 52) :: rat) \<le> y" and hi: "y < 2 ^ 53"
    using scaled_bounds [OF assms] unfolding y_def u_def by simp_all
  have n1: "2 ^ 52 \<le> n" unfolding n_def using lo by (rule round_half_even_ge)
  have near: "\<bar>of_int n - y\<bar> \<le> 1 / 2"
    unfolding n_def by (rule round_half_even_nearest)
  have "(of_int n :: rat) \<le> y + 1 / 2" using near by linarith
  also have "\<dots> < of_int (2 ^ 53) + 1 / 2" using hi by simp
  finally have "(of_int n :: rat) < of_int (2 ^ 53 + 1)" by simp
  then have "n < 2 ^ 53 + 1" by (simp only: of_int_less_iff)
  then have n2: "n \<le> 2 ^ 53" by simp
  have yu: "y * u = x" unfolding y_def using u by simp
  have "\<bar>of_int n * u - y * u\<bar> = \<bar>of_int n - y\<bar> * u"
    using u by (simp add: abs_mult left_diff_distrib [symmetric])
  also have "\<dots> \<le> (1 / 2) * u" using near u by (intro mult_right_mono) simp_all
  finally have "\<bar>of_int n * u - x\<bar> \<le> (1 / 2) * u" unfolding yu .
  then have "\<bar>round_double x - x\<bar> \<le> u / 2" unfolding rd by simp
  with rd n1 n2 show ?thesis unfolding u_def by blast
qed


lemma ilog2_unique:
  assumes "0 < y" and lo: "2 powi k \<le> y" and hi: "y < 2 powi (k + 1)"
  shows "ilog2 y = k"
proof (rule ccontr)
  assume ne: "ilog2 y \<noteq> k"
  have b: "2 powi ilog2 y \<le> y" "y < 2 powi (ilog2 y + 1)"
    using assms(1) by (rule ilog2_bounds)+
  show False
  proof (cases "ilog2 y < k")
    case True
    then have "(2::rat) powi (ilog2 y + 1) \<le> 2 powi k"
      by (intro power_int_increasing) simp_all
    with b(2) lo show False by simp
  next
    case False
    with ne have "k + 1 \<le> ilog2 y" by simp
    then have "(2::rat) powi (k + 1) \<le> 2 powi ilog2 y"
      by (intro power_int_increasing) simp_all
    with b(1) hi show False by simp
  qed
qed

lemma ilog2_twice:
  assumes "0 < x"
  shows "ilog2 (2 * x) = ilog2 x + 1"
proof (rule ilog2_unique)
  show "0 < 2 * x" using assms by simp
  have p: "(2::rat) powi (ilog2 x + 1) = 2 * 2 powi ilog2 x"
    using power_int_add [of "2::rat" 1 "ilog2 x"] by (simp add: add.commute)
  show "2 powi (ilog2 x + 1) \<le> 2 * x"
    unfolding p using ilog2_bounds(1) [OF assms] by simp
  have "(2::rat) powi (ilog2 x + 1 + 1) = 2 * 2 powi (ilog2 x + 1)"
    using power_int_add [of "2::rat" 1 "ilog2 x + 1"] by (simp add: add.commute)
  then show "2 * x < 2 powi (ilog2 x + 1 + 1)"
    using ilog2_bounds(2) [OF assms] by simp
qed

text \<open>Doubling is exact.\<close>

lemma round_double_twice:
  assumes "0 < x"
  shows "round_double (2 * x) = 2 * round_double x"
proof -
  have p: "(2::rat) powi (ilog2 x + 1 - 52) = 2 * 2 powi (ilog2 x - 52)"
    using power_int_add [of "2::rat" 1 "ilog2 x - 52"] by (simp add: algebra_simps)
  have "0 < 2 * x" using assms by simp
  from round_double_pos_eq [OF this] show ?thesis
    unfolding ilog2_twice [OF assms] p round_double_pos_eq [OF assms] by simp
qed

text \<open>A rounded value is a double: rounding it again changes nothing.\<close>

lemma round_double_idem:
  assumes "0 < x"
  shows "round_double (round_double x) = round_double x"
proof -
  define e where "e = ilog2 x - 52"
  from round_double_nearest [OF assms] obtain n where
    rd: "round_double x = of_int n * 2 powi e" and n1: "2 ^ 52 \<le> n" and n2: "n \<le> 2 ^ 53"
    unfolding e_def by blast
  define v where "v = round_double x"
  have v: "v = of_int n * 2 powi e" unfolding v_def by (rule rd)
  have vpos: "0 < v" unfolding v_def using assms by (rule round_double_pos)
  have p52: "(2::rat) powi (e + 52) = 2 ^ 52 * 2 powi e"
    using power_int_add [of "2::rat" 52 e] by (simp add: add.commute)
  have p53: "(2::rat) powi (e + 53) = 2 ^ 53 * 2 powi e"
    using power_int_add [of "2::rat" 53 e] by (simp add: add.commute)
  have p54: "(2::rat) powi (e + 54) = 2 ^ 54 * 2 powi e"
    using power_int_add [of "2::rat" 54 e] by (simp add: add.commute)
  have p1: "(2::rat) powi (e + 1) = 2 * 2 powi e"
    using power_int_add [of "2::rat" 1 e] by (simp add: add.commute)
  have rn1: "(2::rat) ^ 52 \<le> of_int n"
  proof -
    have "(of_int (2 ^ 52) :: rat) \<le> of_int n" using n1 by (simp only: of_int_le_iff)
    then show ?thesis by simp
  qed
  show ?thesis
  proof (cases "n = 2 ^ 53")
    case True
    then have v53: "v = 2 powi (e + 53)" unfolding v p53 by simp
    have il: "ilog2 v = e + 53"
    proof (rule ilog2_unique [OF vpos])
      show "2 powi (e + 53) \<le> v" unfolding v53 by simp
      have "(2::rat) powi (e + 53) < 2 powi (e + 53 + 1)"
        by (intro power_int_strict_increasing) simp_all
      then show "v < 2 powi (e + 53 + 1)" unfolding v53 .
    qed
    have "ilog2 v - 52 = e + 1" unfolding il by simp
    then have "v / 2 powi (ilog2 v - 52) = v / 2 powi (e + 1)"
      by (simp only:)
    also have "\<dots> = 2 ^ 53 * 2 powi e / (2 * 2 powi e)"
      unfolding p1 using v True by simp
    also have "\<dots> = of_int (2 ^ 52)" by simp
    finally have sc: "v / 2 powi (ilog2 v - 52) = of_int (2 ^ 52)" .
    have "round_double v = of_int (2 ^ 52) * 2 powi (e + 1)"
      unfolding round_double_pos_eq [OF vpos] sc round_half_even_of_int
      unfolding il by (simp add: add.commute)
    also have "\<dots> = v" unfolding v53 p53 p1 by simp
    finally show ?thesis unfolding v_def .
  next
    case False
    with n2 have "n < 2 ^ 53" by simp
    then have "(of_int n :: rat) < of_int (2 ^ 53)" by (simp only: of_int_less_iff)
    then have rn2: "(of_int n :: rat) < 2 ^ 53" by simp
    have il: "ilog2 v = e + 52"
    proof (rule ilog2_unique [OF vpos])
      show "2 powi (e + 52) \<le> v" unfolding v p52 using rn1 by simp
      have "(2::rat) powi (e + 52 + 1) = 2 powi (e + 53)" by (simp add: algebra_simps)
      then show "v < 2 powi (e + 52 + 1)" unfolding v p53 using rn2 by simp
    qed
    have "ilog2 v - 52 = e" unfolding il by simp
    then have "v / 2 powi (ilog2 v - 52) = v / 2 powi e"
      by (simp only:)
    also have "\<dots> = of_int n" unfolding v by simp
    finally have sc: "v / 2 powi (ilog2 v - 52) = of_int n" .
    have "round_double v = of_int n * 2 powi e"
      unfolding round_double_pos_eq [OF vpos] sc round_half_even_of_int
      unfolding il by simp
    then show ?thesis unfolding v_def rd .
  qed
qed

lemma round_half_even_le: "of_int (round_half_even y) \<le> y + 1 / 2"
  using round_half_even_nearest [of y] by linarith

lemma round_half_even_floor: "\<lfloor>y\<rfloor> \<le> round_half_even y" "round_half_even y \<le> \<lfloor>y\<rfloor> + 1"
  by (simp_all add: round_half_even_def Let_def)

lemma round_half_even_mono:
  assumes "x \<le> y"
  shows "round_half_even x \<le> round_half_even y"
proof (cases "\<lfloor>x\<rfloor> = \<lfloor>y\<rfloor>")
  case True
  have "x - of_int \<lfloor>y\<rfloor> \<le> y - of_int \<lfloor>y\<rfloor>" using assms by simp
  then show ?thesis
    unfolding round_half_even_def Let_def True by auto
next
  case False
  moreover have "\<lfloor>x\<rfloor> \<le> \<lfloor>y\<rfloor>" using assms by (rule floor_mono)
  ultimately have "\<lfloor>x\<rfloor> + 1 \<le> \<lfloor>y\<rfloor>" by simp
  with round_half_even_floor(2) [of x] round_half_even_floor(1) [of y]
  show ?thesis by linarith
qed

text \<open>Rounding is monotone.\<close>

lemma round_double_mono:
  assumes "0 < x" and "x \<le> y"
  shows "round_double x \<le> round_double y"
proof -
  have ypos: "0 < y" using assms by simp
  have le: "ilog2 x \<le> ilog2 y"
  proof (rule ccontr)
    assume "\<not> ilog2 x \<le> ilog2 y"
    then have "ilog2 y + 1 \<le> ilog2 x" by simp
    then have "(2::rat) powi (ilog2 y + 1) \<le> 2 powi ilog2 x"
      by (intro power_int_increasing) simp_all
    with ilog2_bounds(2) [OF ypos] ilog2_bounds(1) [OF assms(1)] assms(2)
    show False by simp
  qed
  show ?thesis
  proof (cases "ilog2 x = ilog2 y")
    case True
    have "x / 2 powi (ilog2 y - 52) \<le> y / 2 powi (ilog2 y - 52)"
      using assms(2) by (simp add: divide_right_mono)
    then have "round_half_even (x / 2 powi (ilog2 y - 52)) \<le>
        round_half_even (y / 2 powi (ilog2 y - 52))"
      by (rule round_half_even_mono)
    then have "(of_int (round_half_even (x / 2 powi (ilog2 y - 52))) :: rat) \<le>
        of_int (round_half_even (y / 2 powi (ilog2 y - 52)))"
      by (simp only: of_int_le_iff)
    then show ?thesis
      unfolding round_double_pos_eq [OF assms(1)] round_double_pos_eq [OF ypos] True
      by (intro mult_right_mono) simp_all
  next
    case False
    with le have lt: "ilog2 x + 1 \<le> ilog2 y" by simp
    from round_double_nearest [OF assms(1)] obtain n where
      rx: "round_double x = of_int n * 2 powi (ilog2 x - 52)" and n2: "n \<le> 2 ^ 53"
      by blast
    from round_double_nearest [OF ypos] obtain m where
      ry: "round_double y = of_int m * 2 powi (ilog2 y - 52)" and m1: "2 ^ 52 \<le> m"
      by blast
    have "(of_int n :: rat) \<le> of_int (2 ^ 53)" using n2 by (simp only: of_int_le_iff)
    then have "round_double x \<le> 2 ^ 53 * 2 powi (ilog2 x - 52)"
      unfolding rx by (intro mult_right_mono) simp_all
    also have "\<dots> = 2 powi (ilog2 x + 1)"
      using power_int_add [of "2::rat" 53 "ilog2 x - 52"] by (simp add: add.commute)
    also have "\<dots> \<le> 2 powi ilog2 y"
      using lt by (intro power_int_increasing) simp_all
    also have "\<dots> = 2 ^ 52 * 2 powi (ilog2 y - 52)"
      using power_int_add [of "2::rat" 52 "ilog2 y - 52"] by simp
    also have "\<dots> \<le> of_int m * 2 powi (ilog2 y - 52)"
    proof -
      have "(of_int (2 ^ 52) :: rat) \<le> of_int m" using m1 by (simp only: of_int_le_iff)
      then show ?thesis by (intro mult_right_mono) simp_all
    qed
    finally show ?thesis unfolding ry .
  qed
qed

lemma round_double_one: "round_double 1 = 1"
  by code_simp

lemma round_double_le_one: "0 < x \<Longrightarrow> x \<le> 1 \<Longrightarrow> round_double x \<le> 1"
  using round_double_mono [of x 1] by (simp add: round_double_one)

lemma double_ratio_nonneg: "0 \<le> double_ratio a b"
  unfolding double_ratio_def by (auto intro!: round_double_nonneg)

lemma double_ratio_le_one: "double_ratio a b \<le> 1"
proof (cases "a = 0")
  case True
  then show ?thesis by (simp add: double_ratio_def)
next
  case False
  then have "0 < (of_nat a / of_nat (a + b) :: rat)" by simp
  moreover have "(of_nat a / of_nat (a + b) :: rat) \<le> 1"
    using False by (simp add: divide_le_eq)
  ultimately have "round_double (of_nat a / of_nat (a + b)) \<le> 1"
    by (rule round_double_le_one)
  then show ?thesis by (simp add: double_ratio_def)
qed

lemma double_ratio_is_double: "round_double (double_ratio a b) = double_ratio a b"
proof (cases "a = 0")
  case True
  then show ?thesis by (simp add: double_ratio_def)
next
  case False
  then have "0 < (of_nat a / of_nat (a + b) :: rat)" by simp
  then show ?thesis using False by (simp add: double_ratio_def round_double_idem)
qed

lemma twice_double_exact:
  assumes "0 \<le> x" and "round_double x = x"
  shows "round_double (2 * x) = 2 * x"
proof (cases "x = 0")
  case True
  then show ?thesis by simp
next
  case False
  with assms(1) have "0 < x" by simp
  then show ?thesis using assms(2) by (simp add: round_double_twice)
qed

lemma double_f1_commute:
  assumes "0 \<le> p" "round_double p = p" "0 \<le> r" "round_double r = r"
  shows "double_f1 p r = double_f1 r p"
proof -
  have a: "round_double (2 * p) = 2 * p" using assms(1,2) by (rule twice_double_exact)
  have b: "round_double (2 * r) = 2 * r" using assms(3,4) by (rule twice_double_exact)
  have m: "2 * p * r = 2 * r * p" by simp
  have c: "p + r = r + p" by simp
  show ?thesis unfolding double_f1_def a b m unfolding c ..
qed

lemma double_f1_bounds:
  assumes "0 \<le> p" "p \<le> 1" "round_double p = p" "0 \<le> r" "r \<le> 1"
  shows "0 \<le> double_f1 p r" and "double_f1 p r \<le> 1"
proof -
  show "0 \<le> double_f1 p r"
    unfolding double_f1_def using assms
    by (auto intro!: round_double_nonneg divide_nonneg_nonneg mult_nonneg_nonneg)
  show "double_f1 p r \<le> 1"
  proof (cases "p + r = 0")
    case True
    then show ?thesis by (simp add: double_f1_def)
  next
    case False
    with assms have s: "0 < p + r" by simp
    then have d: "0 < round_double (p + r)" by (rule round_double_pos)
    have tw: "round_double (2 * p) = 2 * p"
      using assms(1) assms(3) by (rule twice_double_exact)
    have "p * r \<le> p * 1" using assms by (intro mult_left_mono) simp_all
    moreover have "p * r \<le> 1 * r" using assms by (intro mult_right_mono) simp_all
    ultimately have le: "2 * p * r \<le> p + r" by simp
    have n: "round_double (2 * p * r) \<le> round_double (p + r)"
    proof (cases "2 * p * r = 0")
      case True
      then have "round_double (2 * p * r) = 0" by (simp only: round_double_zero)
      with d show ?thesis by simp
    next
      case False
      moreover have "0 \<le> 2 * p * r" using assms by simp
      ultimately have "0 < 2 * p * r" by linarith
      then show ?thesis using le by (rule round_double_mono)
    qed
    have n0: "0 \<le> round_double (2 * p * r)"
      using assms by (intro round_double_nonneg) simp
    have q: "round_double (2 * p * r) / round_double (p + r) \<le> 1"
      using n d by (simp add: divide_le_eq)
    have "round_double (round_double (2 * p * r) / round_double (p + r)) \<le> 1"
    proof (cases "round_double (2 * p * r) / round_double (p + r) = 0")
      case True
      then have "round_double (round_double (2 * p * r) / round_double (p + r)) = 0"
        by (simp only: round_double_zero)
      then show ?thesis by simp
    next
      case False
      moreover have "0 \<le> round_double (2 * p * r) / round_double (p + r)"
        using n0 d by simp
      ultimately have "0 < round_double (2 * p * r) / round_double (p + r)" by linarith
      then show ?thesis using q by (rule round_double_le_one)
    qed
    then show ?thesis using False by (simp add: double_f1_def tw)
  qed
qed

lemma precision_recall_f1_double_value:
  "precision_recall_f1_double pred truth =
     Inr (double_ratio (fcard (pred |\<inter>| truth)) (fcard (pred |-| truth)),
          double_ratio (fcard (pred |\<inter>| truth)) (fcard (truth |-| pred)),
          double_f1 (double_ratio (fcard (pred |\<inter>| truth)) (fcard (pred |-| truth)))
                    (double_ratio (fcard (pred |\<inter>| truth)) (fcard (truth |-| pred))))"
proof -
  define tp where "tp = fcard (pred |\<inter>| truth)"
  define fp where "fp = fcard (pred |-| truth)"
  define fn where "fn = fcard (truth |-| pred)"
  define p where "p = double_ratio tp fp"
  define r where "r = double_ratio tp fn"
  have p0: "0 \<le> p" and r0: "0 \<le> r"
    unfolding p_def r_def by (rule double_ratio_nonneg)+
  have pe: "(if int tp + int fp > 0 then int_truediv (int tp) (int tp + int fp) else Inr 0) = Inr p"
    unfolding p_def double_ratio_def int_truediv_def by auto
  have re: "(if int tp + int fn > 0 then int_truediv (int tp) (int tp + int fn) else Inr 0) = Inr r"
    unfolding r_def double_ratio_def int_truediv_def by auto
  have s: "0 < float_add p r \<longleftrightarrow> p + r \<noteq> 0"
  proof (cases "p + r = 0")
    case True
    then show ?thesis by (simp add: float_add_def)
  next
    case False
    with p0 r0 have "0 < p + r" by simp
    then have "0 < round_double (p + r)" by (rule round_double_pos)
    with False show ?thesis by (simp add: float_add_def)
  qed
  have fe: "(if float_add p r > 0
             then float_truediv (float_mul (float_mul 2 p) r) (float_add p r) else Inr 0) =
        Inr (double_f1 p r)"
    using s by (auto simp: float_truediv_def float_mul_def float_add_def double_f1_def)
  have "precision_recall_f1_double pred truth = Inr (p, r, double_f1 p r)"
    unfolding precision_recall_f1_double_def Let_def
    unfolding tp_def [symmetric] fp_def [symmetric] fn_def [symmetric]
    by (simp only: pe re fe sum.case)
  then show ?thesis
    unfolding p_def r_def tp_def fp_def fn_def .
qed

text \<open>
  Claim C1, as amended. For all finite sets \<open>pred\<close> and \<open>truth\<close>,
  \<open>precision_recall_f1\<close> returns (it raises nothing) the triple computed in double
  arithmetic: precision is the double nearest \<open>tp/(tp+fp)\<close>, recall the double nearest
  \<open>tp/(tp+fn)\<close>, and F1 the rounded quotient of the rounded product
  \<open>2 * precision * recall\<close> by the rounded sum \<open>precision + recall\<close>, where
  \<open>tp\<close>, \<open>fp\<close> and \<open>fn\<close> are the sizes of \<open>pred \<inter> truth\<close>, \<open>pred - truth\<close> and
  \<open>truth - pred\<close>; a component is \<open>0.0\<close> whenever its denominator is zero.
\<close>

theorem precision_recall_f1_double_formula:
  "precision_recall_f1_double pred truth =
     (let tp = fcard (pred |\<inter>| truth);
          fp = fcard (pred |-| truth);
          fn = fcard (truth |-| pred);
          precision = (if tp + fp = 0 then 0 else round_double (of_nat tp / of_nat (tp + fp)));
          recall = (if tp + fn = 0 then 0 else round_double (of_nat tp / of_nat (tp + fn)));
          f1 = (if precision + recall = 0 then 0
                else round_double
                       (round_double (round_double (2 * precision) * recall) /
                        round_double (precision + recall)))
      in Inr (precision, recall, f1))"
  unfolding precision_recall_f1_double_value Let_def double_ratio_def double_f1_def ..

text \<open>
  The properties of the scores that are stated above in exact arithmetic hold in double
  arithmetic as well: the swap, the bounds, and the zero scores of empty sets.
\<close>

lemma precision_recall_f1_double_swap:
  "\<exists>p r f. precision_recall_f1_double S T = Inr (p, r, f) \<and>
           precision_recall_f1_double T S = Inr (r, p, f)"
  unfolding precision_recall_f1_double_value
  by (simp add: inf_commute double_f1_commute double_ratio_nonneg double_ratio_is_double)

lemma precision_recall_f1_double_bounds:
  "\<exists>p r f. precision_recall_f1_double pred truth = Inr (p, r, f) \<and>
     0 \<le> p \<and> p \<le> 1 \<and> 0 \<le> r \<and> r \<le> 1 \<and> 0 \<le> f \<and> f \<le> 1"
  unfolding precision_recall_f1_double_value
  by (simp add: double_ratio_nonneg double_ratio_le_one double_f1_bounds double_ratio_is_double)

lemma precision_recall_f1_double_empty:
  "precision_recall_f1_double {||} {||} = Inr (0, 0, 0)"
  "precision_recall_f1_double {||} truth = Inr (0, 0, 0)"
  "precision_recall_f1_double pred {||} = Inr (0, 0, 0)"
  unfolding precision_recall_f1_double_value
  by (simp_all add: double_ratio_def double_f1_def fcard_fempty)

text \<open>
  The returned triple is not the triple of the exact quotients. With one predicted
  artifact that is also one of five true ones, \<open>tp = 1\<close>, \<open>fp = 0\<close> and \<open>fn = 4\<close>:
  the recall returned is the double nearest \<open>1/5\<close>, and the F1 returned
  (\<^verbatim>\<open>0.33333333333333337\<close>) is neither \<open>1/3\<close> nor the double nearest \<open>1/3\<close>.
\<close>

theorem precision_recall_f1_exact_counterexample:
  "fcard ({|(''ip'', ''1'')|} |\<inter>|
          {|(''ip'', ''1''), (''ip'', ''2''), (''ip'', ''3''), (''ip'', ''4''), (''ip'', ''5'')|}) = 1 \<and>
   fcard ({|(''ip'', ''1'')|} |-|
          {|(''ip'', ''1''), (''ip'', ''2''), (''ip'', ''3''), (''ip'', ''4''), (''ip'', ''5'')|}) = 0 \<and>
   fcard ({|(''ip'', ''1''), (''ip'', ''2''), (''ip'', ''3''), (''ip'', ''4''), (''ip'', ''5'')|} |-|
          {|(''ip'', ''1'')|}) = 4 \<and>
   precision_recall_f1_double {|(''ip'', ''1'')|}
       {|(''ip'', ''1''), (''ip'', ''2''), (''ip'', ''3''), (''ip'', ''4''), (''ip'', ''5'')|} =
     Inr (1, 3602879701896397 / 2 ^ 54, 6004799503160662 / 2 ^ 54) \<and>
   (3602879701896397 / 2 ^ 54 :: rat) \<noteq> 1 / (1 + 4) \<and>
   (6004799503160662 / 2 ^ 54 :: rat) \<noteq> 2 * 1 * (1 / 5) / (1 + 1 / 5) \<and>
   (6004799503160662 / 2 ^ 54 :: rat) \<noteq> round_double (2 * 1 * (1 / 5) / (1 + 1 / 5))"
  by code_simp

section \<open>Properties of the mapping accuracy\<close>

lemma fcard_ffilter_le: "fcard (ffilter P A) \<le> fcard A"
  by (rule fcard_mono) auto


lemma mapping_accuracy_value:
  "mapping_accuracy pred_map truth_map =
     Inr (if fmdom truth_map |\<inter>| fmdom pred_map = {||} then 0
          else real (fcard (ffilter (\<lambda>k. fmlookup pred_map k = fmlookup truth_map k)
                        (fmdom truth_map |\<inter>| fmdom pred_map))) /
               real (fcard (fmdom truth_map |\<inter>| fmdom pred_map)))"
  by (simp add: mapping_accuracy_def Let_def py_truediv_def)

lemma mapping_accuracy_bounds:
  assumes "mapping_accuracy pred_map truth_map = Inr a"
  shows "0 \<le> a" "a \<le> 1"
proof -
  let ?K = "fmdom truth_map |\<inter>| fmdom pred_map"
  let ?C = "ffilter (\<lambda>k. fmlookup pred_map k = fmlookup truth_map k) ?K"
  have a: "a = (if ?K = {||} then 0 else real (fcard ?C) / real (fcard ?K))"
    using assms unfolding mapping_accuracy_value by simp
  show "0 \<le> a" unfolding a by simp
  have "real (fcard ?C) \<le> real (fcard ?K)"
    using fcard_ffilter_le [of _ ?K] by simp
  then show "a \<le> 1" unfolding a by (simp add: divide_le_eq)
qed


text \<open>Labels that differ only in case do not agree.\<close>

lemma mapping_accuracy_case_sensitive:
  "mapping_accuracy (fmupd (''ip'', ''1.2.3.4'') ''persistence'' fmempty)
                    (fmupd (''ip'', ''1.2.3.4'') ''Persistence'' fmempty) = Inr 0"
  unfolding mapping_accuracy_value by auto


text \<open>
  Claim C9. For every pair of inputs the four scores (precision, recall and F1 of
  \<open>precision_recall_f1\<close>, and the result of \<open>mapping_accuracy\<close>) are returned and lie
  in the closed interval from 0 to 1.
\<close>

theorem scores_in_unit_interval:
  "\<exists>p r f a. precision_recall_f1 pred truth = Inr (p, r, f) \<and>
     mapping_accuracy pred_map truth_map = Inr a \<and>
     0 \<le> p \<and> p \<le> 1 \<and> 0 \<le> r \<and> r \<le> 1 \<and> 0 \<le> f \<and> f \<le> 1 \<and> 0 \<le> a \<and> a \<le> 1"
proof -
  obtain a where a: "mapping_accuracy pred_map truth_map = Inr a"
    unfolding mapping_accuracy_value by blast
  have b: "0 \<le> a" "a \<le> 1"
    using a by (rule mapping_accuracy_bounds)+
  let ?p = "spec_ratio (fcard (pred |\<inter>| truth)) (fcard (pred |-| truth))"
  let ?r = "spec_ratio (fcard (pred |\<inter>| truth)) (fcard (truth |-| pred))"
  have "precision_recall_f1 pred truth = Inr (?p, ?r, spec_f1 ?p ?r)"
    by (rule prf_value)
  moreover have "0 \<le> ?p" "?p \<le> 1" "0 \<le> ?r" "?r \<le> 1"
    by (rule spec_ratio_bounds)+
  moreover have "0 \<le> spec_f1 ?p ?r" "spec_f1 ?p ?r \<le> 1"
    by (simp_all add: spec_f1_nonneg spec_f1_le_one spec_ratio_bounds)
  ultimately show ?thesis using a b by blast
qed

section \<open>Normalisation of an artifact entry\<close>

lemma py_bind_simps [simp]:
  "py_bind (Inl e) f = Inl e"
  "py_bind (Inr x) f = f x"
  by (simp_all add: py_bind_def)

lemma py_bind_Inr_iff:
  "py_bind m f = Inr y \<longleftrightarrow> (\<exists>x. m = Inr x \<and> f x = Inr y)"
  by (cases m) simp_all

text \<open>\<open>py_strip\<close> meets the specification's description of stripping, and nothing else does.\<close>

lemma dropWhile_decomp: "\<exists>l. s = l @ dropWhile P s \<and> list_all P l"
  by (induction s) (auto intro: exI [of _ "[]"] exI [of _ "_ # _"])

lemma py_strip_Nil [simp]: "py_strip [] = []"
  by (simp add: py_strip_def)

lemma py_lower_Nil [simp]: "py_lower [] = []"
  by (simp add: py_lower_def)

lemma hd_dropWhile_not: "dropWhile P s \<noteq> [] \<Longrightarrow> \<not> P (hd (dropWhile P s))"
  by (rule hd_dropWhile)

lemma py_strip_spec: "spec_stripped s (py_strip s)"
proof -
  define t where "t = dropWhile py_isspace s"
  define u where "u = dropWhile py_isspace (rev t)"
  obtain l where l: "s = l @ t" "list_all py_isspace l"
    unfolding t_def using dropWhile_decomp by blast
  obtain r' where r': "rev t = r' @ u" "list_all py_isspace r'"
    unfolding u_def using dropWhile_decomp by blast
  have core: "py_strip s = rev u"
    by (simp add: py_strip_def t_def u_def)
  from r' have t: "t = rev u @ rev r'"
    by (metis rev_append rev_rev_ident)
  have sp: "list_all py_isspace (rev r')"
    using r'(2) by (simp add: list_all_iff)
  have ends: "rev u = [] \<or> (\<not> py_isspace (hd (rev u)) \<and> \<not> py_isspace (last (rev u)))"
  proof (cases "u = []")
    case True
    then show ?thesis by simp
  next
    case False
    then have "\<not> py_isspace (hd u)"
      unfolding u_def by (rule hd_dropWhile)
    then have last: "\<not> py_isspace (last (rev u))"
      using False by (simp add: last_rev)
    from False t have "t \<noteq> []" by simp
    then have "\<not> py_isspace (hd t)"
      unfolding t_def by (rule hd_dropWhile)
    moreover have "hd t = hd (rev u)"
      using t False by simp
    ultimately show ?thesis using last by simp
  qed
  show ?thesis
    unfolding spec_stripped_def core
    using l t sp ends by (intro exI [of _ l] exI [of _ "rev r'"]) simp
qed

lemma py_strip_unique:
  assumes "spec_stripped s core"
  shows "core = py_strip s"
proof -
  from assms obtain l r where s: "s = l @ core @ r"
    and l: "list_all py_isspace l" and r: "list_all py_isspace r"
    and ends: "core = [] \<or> (\<not> py_isspace (hd core) \<and> \<not> py_isspace (last core))"
    unfolding spec_stripped_def by blast
  have dl: "dropWhile py_isspace s = dropWhile py_isspace (core @ r)"
    unfolding s using l by (intro dropWhile_append2) (simp add: list_all_iff)
  show ?thesis
  proof (cases "core = []")
    case True
    have d: "dropWhile py_isspace s = []"
      unfolding dl using True r by (simp add: list_all_iff)
    show ?thesis unfolding py_strip_def d using True by simp
  next
    case False
    with ends have h: "\<not> py_isspace (hd core)" and t: "\<not> py_isspace (last core)" by simp_all
    from False h have "dropWhile py_isspace (core @ r) = core @ r"
      by (cases core) simp_all
    then have "py_strip s = rev (dropWhile py_isspace (rev r @ rev core))"
      by (simp add: py_strip_def dl)
    also have "dropWhile py_isspace (rev r @ rev core) = dropWhile py_isspace (rev core)"
      using r by (intro dropWhile_append2) (simp add: list_all_iff)
    also have "dropWhile py_isspace (rev core) = rev core"
      using False t by (cases "rev core") (simp_all add: last_rev hd_rev [symmetric])
    finally show ?thesis by simp
  qed
qed

lemma str_strip_or_text:
  "text_field x \<Longrightarrow>
   str_strip (py_or (case x of None \<Rightarrow> JNull | Some v \<Rightarrow> v) (JStr [])) = Inr (py_strip (field_text x))"
  by (cases x rule: text_field.cases) (simp_all add: py_or_def)

lemma str_strip_or_fail:
  "\<not> text_field x \<Longrightarrow>
   str_strip (py_or (case x of None \<Rightarrow> JNull | Some v \<Rightarrow> v) (JStr [])) = Inl AttributeError"
  by (cases x rule: text_field.cases) (simp_all add: py_or_def)

lemma artifact_identity_wf:
  assumes "text_field (map_of fields ''type'')" "text_field (map_of fields ''value'')"
  shows "artifact_identity (JObj fields) =
     Inr (py_lower (py_strip (field_text (map_of fields ''type''))),
          py_strip (field_text (map_of fields ''value'')))"
  using assms by (simp add: artifact_identity_def str_strip_or_text)

lemma artifact_identity_returns_iff:
  "(\<exists>k. artifact_identity a = Inr k) \<longleftrightarrow> wf_artifact a"
proof (cases a)
  case (JObj fields)
  show ?thesis
  proof (cases "text_field (map_of fields ''type'')")
    case True
    then have t: "text_field (map_of fields ''type'')" .
    show ?thesis
    proof (cases "text_field (map_of fields ''value'')")
      case True
      with t JObj show ?thesis by (simp add: wf_artifact_def artifact_identity_wf)
    next
      case False
      with t JObj show ?thesis
        by (simp add: wf_artifact_def artifact_identity_def str_strip_or_text str_strip_or_fail)
    qed
  next
    case False
    with JObj show ?thesis
      by (simp add: wf_artifact_def artifact_identity_def str_strip_or_fail)
  qed
qed (simp_all add: wf_artifact_def artifact_identity_def)

text \<open>
  Claim C4. For every artifact record (its \<open>type\<close> and \<open>value\<close> each absent or
  text), normalisation returns, and never fails: the type is the \<open>type\<close> string with
  the white space at both ends removed and every character lower-cased; the value is the
  \<open>value\<close> string with the white space at both ends removed and its characters
  unchanged; an absent field gives the empty string.
\<close>

theorem artifact_identity_normalizes:
  assumes "text_field (map_of fields ''type'')" and "text_field (map_of fields ''value'')"
  shows "\<exists>a_type a_val core.
     artifact_identity (JObj fields) = Inr (a_type, a_val) \<and>
     spec_stripped (field_text (map_of fields ''type'')) core \<and>
     a_type = map py_lower_char core \<and>
     spec_stripped (field_text (map_of fields ''value'')) a_val \<and>
     (map_of fields ''type'' = None \<longrightarrow> a_type = []) \<and>
     (map_of fields ''value'' = None \<longrightarrow> a_val = [])"
proof -
  let ?t = "field_text (map_of fields ''type'')"
  let ?v = "field_text (map_of fields ''value'')"
  have id: "artifact_identity (JObj fields) = Inr (py_lower (py_strip ?t), py_strip ?v)"
    using assms by (rule artifact_identity_wf)
  have st: "spec_stripped ?t (py_strip ?t)" "spec_stripped ?v (py_strip ?v)"
    by (rule py_strip_spec)+
  have lo: "py_lower (py_strip ?t) = map py_lower_char (py_strip ?t)"
    by (simp add: py_lower_def)
  have ab: "map_of fields ''type'' = None \<longrightarrow> py_lower (py_strip ?t) = []"
    "map_of fields ''value'' = None \<longrightarrow> py_strip ?v = []"
    by simp_all
  show ?thesis
    apply (rule exI [of _ "py_lower (py_strip ?t)"])
    apply (rule exI [of _ "py_strip ?v"])
    apply (rule exI [of _ "py_strip ?t"])
    using id st lo ab by simp
qed

theorem artifact_identity_normalizes_witness:
  "text_field (map_of [(''type'', JStr '' IP ''), (''value'', JStr '' 1.2.3.4 '')] ''type'') \<and>
   text_field (map_of [(''type'', JStr '' IP ''), (''value'', JStr '' 1.2.3.4 '')] ''value'') \<and>
   artifact_identity (JObj [(''type'', JStr '' IP ''), (''value'', JStr '' 1.2.3.4 '')]) =
     Inr (''ip'', ''1.2.3.4'')"
proof -
  let ?F = "[(''type'', JStr '' IP ''), (''value'', JStr '' 1.2.3.4 '')]"
  have t: "text_field (map_of ?F ''type'')" and v: "text_field (map_of ?F ''value'')"
    by simp_all
  from artifact_identity_normalizes [OF t v]
  obtain a_type a_val core where
    res: "artifact_identity (JObj ?F) = Inr (a_type, a_val)"
    and core: "spec_stripped '' IP '' core" and a_type: "a_type = map py_lower_char core"
    and a_val: "spec_stripped '' 1.2.3.4 '' a_val"
    by auto
  have s1: "py_strip '' IP '' = ''IP''" by code_simp
  have "core = ''IP''"
    using py_strip_unique [OF core] unfolding s1 .
  moreover have "map py_lower_char ''IP'' = ''ip''" by code_simp
  ultimately have "a_type = ''ip''" using a_type by simp
  moreover have s2: "py_strip '' 1.2.3.4 '' = ''1.2.3.4''" by code_simp
  have "a_val = ''1.2.3.4''"
    using py_strip_unique [OF a_val] unfolding s2 .
  ultimately show ?thesis using res t v by simp
qed

section \<open>The artifact set\<close>

lemma artifact_identity_not_dict:
  "(\<And>fields. a \<noteq> JObj fields) \<Longrightarrow> artifact_identity a = Inl AttributeError"
  by (cases a) (auto simp: artifact_identity_def)

lemma artifact_loop_members:
  "artifact_loop items acc = Inr S \<Longrightarrow>
   k |\<in>| S \<longleftrightarrow>
     k |\<in>| acc \<or> (fst k \<noteq> [] \<and> snd k \<noteq> [] \<and> (\<exists>a\<in>set items. artifact_identity a = Inr k))"
proof (induction items arbitrary: acc)
  case Nil
  then show ?case by simp
next
  case (Cons a items)
  from Cons.prems obtain t v where id: "artifact_identity a = Inr (t, v)"
    by (auto split: sum.splits)
  let ?acc = "if t \<noteq> [] \<and> v \<noteq> [] then finsert (t, v) acc else acc"
  from Cons.prems id have "artifact_loop items ?acc = Inr S" by simp
  from Cons.IH [OF this] show ?case
    using id by (cases k) auto
qed

lemma artifact_loop_returns:
  "list_all wf_artifact items \<Longrightarrow> \<exists>S. artifact_loop items acc = Inr S"
proof (induction items arbitrary: acc)
  case Nil
  then show ?case by simp
next
  case (Cons a items)
  then have "wf_artifact a" by simp
  then obtain k where "artifact_identity a = Inr k"
    using artifact_identity_returns_iff by blast
  with Cons show ?case by (cases k) simp
qed

lemma artifact_loop_fails_on_text:
  "items \<noteq> [] \<Longrightarrow> artifact_loop (map (\<lambda>x. JStr (f x)) items) acc = Inl AttributeError"
  by (cases items) (simp_all add: artifact_identity_def)

lemma to_artifact_set_loop:
  assumes "to_artifact_set d = Inr S"
  shows "artifact_loop (listed d ''artifacts'') {||} = Inr S"
proof (cases d)
  case (JObj fields)
  show ?thesis
  proof (cases "map_of fields ''artifacts''")
    case None
    with assms JObj show ?thesis by (simp add: to_artifact_set_def listed_def)
  next
    case (Some x)
    show ?thesis
    proof (cases x)
      case (JArr xs)
      with assms JObj Some show ?thesis by (simp add: to_artifact_set_def listed_def)
    next
      case (JStr str)
      have "str = []"
      proof (rule ccontr)
        assume "str \<noteq> []"
        then have "artifact_loop (map (\<lambda>c. JStr [c]) str) {||} = Inl AttributeError"
          by (rule artifact_loop_fails_on_text)
        with assms JObj Some JStr show False by (simp add: to_artifact_set_def)
      qed
      with assms JObj Some JStr show ?thesis by (simp add: to_artifact_set_def listed_def)
    next
      case (JObj kvs)
      have "kvs = []"
      proof (rule ccontr)
        assume "kvs \<noteq> []"
        then have "artifact_loop (map (\<lambda>kv. JStr (fst kv)) kvs) {||} = Inl AttributeError"
          by (rule artifact_loop_fails_on_text)
        with assms \<open>d = JObj fields\<close> Some JObj show False by (simp add: to_artifact_set_def)
      qed
      with assms \<open>d = JObj fields\<close> Some JObj show ?thesis
        by (simp add: to_artifact_set_def listed_def)
    qed (use assms JObj Some in \<open>simp_all add: to_artifact_set_def\<close>)
  qed
qed (use assms in \<open>simp_all add: to_artifact_set_def listed_def\<close>)

lemma to_artifact_set_returns:
  assumes "wf_container d ''artifacts''" and "list_all wf_artifact (listed d ''artifacts'')"
  shows "\<exists>S. to_artifact_set d = Inr S"
proof -
  have "to_artifact_set d = artifact_loop (listed d ''artifacts'') {||}"
    using assms(1)
    by (auto simp: to_artifact_set_def wf_container_def listed_def split: json.splits option.splits)
  then show ?thesis using artifact_loop_returns [OF assms(2)] by simp
qed

text \<open>
  Claim C5. For every input document, the set built by \<open>to_artifact_set\<close> contains
  exactly the normalised (type, value) pairs of the artifacts the document lists whose
  normalised type and normalised value are both non-empty; an artifact whose normalised
  type or value is empty is left out. The set is built (nothing is raised) when the
  listed artifacts are well formed.
\<close>

theorem to_artifact_set_exact:
  "(wf_container d ''artifacts'' \<and> list_all wf_artifact (listed d ''artifacts'') \<longrightarrow>
      (\<exists>S. to_artifact_set d = Inr S)) \<and>
   (\<forall>S. to_artifact_set d = Inr S \<longrightarrow>
      (\<forall>k. k |\<in>| S \<longleftrightarrow>
         fst k \<noteq> [] \<and> snd k \<noteq> [] \<and>
         (\<exists>a\<in>set (listed d ''artifacts''). artifact_identity a = Inr k)))"
proof (intro conjI impI allI)
  assume "wf_container d ''artifacts'' \<and> list_all wf_artifact (listed d ''artifacts'')"
  then show "\<exists>S. to_artifact_set d = Inr S"
    using to_artifact_set_returns by blast
next
  fix S k
  assume "to_artifact_set d = Inr S"
  then have "artifact_loop (listed d ''artifacts'') {||} = Inr S"
    by (rule to_artifact_set_loop)
  from artifact_loop_members [OF this, of k]
  show "k |\<in>| S \<longleftrightarrow>
         fst k \<noteq> [] \<and> snd k \<noteq> [] \<and>
         (\<exists>a\<in>set (listed d ''artifacts''). artifact_identity a = Inr k)"
    by simp
qed

theorem to_artifact_set_exact_witness:
  "wf_container (JObj [(''artifacts'', JArr [JObj [(''type'', JStr '' IP ''), (''value'', JStr '' 1.2.3.4 '')],
                                           JObj [(''value'', JStr ''x'')]])]) ''artifacts'' \<and>
   list_all wf_artifact
     (listed (JObj [(''artifacts'', JArr [JObj [(''type'', JStr '' IP ''), (''value'', JStr '' 1.2.3.4 '')],
                                         JObj [(''value'', JStr ''x'')]])]) ''artifacts'') \<and>
   (\<exists>S. to_artifact_set
          (JObj [(''artifacts'', JArr [JObj [(''type'', JStr '' IP ''), (''value'', JStr '' 1.2.3.4 '')],
                                      JObj [(''value'', JStr ''x'')]])]) = Inr S \<and>
        (''ip'', ''1.2.3.4'') |\<in>| S \<and> ([], ''x'') |\<notin>| S)"
proof -
  define a1 where "a1 = JObj [(''type'', JStr '' IP ''), (''value'', JStr '' 1.2.3.4 '')]"
  define a2 where "a2 = JObj [(''value'', JStr ''x'')]"
  define D where "D = JObj [(''artifacts'', JArr [a1, a2])]"
  have l: "listed D ''artifacts'' = [a1, a2]"
    by (simp add: listed_def D_def)
  have c: "wf_container D ''artifacts''"
    by (simp add: wf_container_def D_def)
  have w: "list_all wf_artifact (listed D ''artifacts'')"
    unfolding l by (simp add: wf_artifact_def a1_def a2_def)
  have ex: "(wf_container D ''artifacts'' \<and> list_all wf_artifact (listed D ''artifacts'') \<longrightarrow>
      (\<exists>S. to_artifact_set D = Inr S)) \<and>
   (\<forall>S. to_artifact_set D = Inr S \<longrightarrow>
      (\<forall>k. k |\<in>| S \<longleftrightarrow>
         fst k \<noteq> [] \<and> snd k \<noteq> [] \<and>
         (\<exists>a\<in>set (listed D ''artifacts''). artifact_identity a = Inr k)))"
    by (rule to_artifact_set_exact)
  from ex c w obtain S where S: "to_artifact_set D = Inr S"
    by blast
  with ex have mem: "k |\<in>| S \<longleftrightarrow> fst k \<noteq> [] \<and> snd k \<noteq> [] \<and>
        (\<exists>a\<in>set (listed D ''artifacts''). artifact_identity a = Inr k)" for k
    by blast
  have "artifact_identity a1 = Inr (''ip'', ''1.2.3.4'')"
    unfolding a1_def by code_simp
  then have in1: "(''ip'', ''1.2.3.4'') |\<in>| S"
    unfolding mem l by simp
  have out1: "([], ''x'') |\<notin>| S"
    unfolding mem by simp
  have "\<exists>S. to_artifact_set D = Inr S \<and> (''ip'', ''1.2.3.4'') |\<in>| S \<and> ([], ''x'') |\<notin>| S"
    using S in1 out1 by (intro exI [of _ S]) simp
  with c w show ?thesis
    unfolding D_def a1_def a2_def by (intro conjI)
qed

section \<open>The phase map\<close>

lemma last_phase_snoc:
  "last_phase (es @ [e]) k = (if fst e = k then Some (snd e) else last_phase es k)"
  by (simp add: last_phase_def)

lemma last_phase_Nil [simp]: "last_phase [] k = None"
  by (simp add: last_phase_def)

lemma fold_fmupd_lookup:
  "fmlookup (fold (\<lambda>e. fmupd (fst e) (snd e)) es m) k =
     (case last_phase es k of None \<Rightarrow> fmlookup m k | Some v \<Rightarrow> Some v)"
  by (induction es rule: rev_induct) (simp_all add: last_phase_snoc)

lemma phase_artifacts_loop_fold:
  "phase_artifacts_loop items ph m = Inr m' \<Longrightarrow>
   m' = fold (\<lambda>e. fmupd (fst e) (snd e))
          (concat (map (\<lambda>a. case artifact_identity a of
                               Inr k \<Rightarrow> (if fst k \<noteq> [] \<and> snd k \<noteq> [] \<and> py_truthy ph
                                         then [(k, ph)] else [])
                             | Inl e \<Rightarrow> []) items)) m"
proof (induction items arbitrary: m)
  case Nil
  then show ?case by simp
next
  case (Cons a items)
  from Cons.prems obtain t v where id: "artifact_identity a = Inr (t, v)"
    by (auto split: sum.splits)
  let ?m = "if t \<noteq> [] \<and> v \<noteq> [] \<and> py_truthy ph then fmupd (t, v) ph m else m"
  from Cons.prems id have "phase_artifacts_loop items ph ?m = Inr m'" by simp
  from Cons.IH [OF this] show ?case
    using id by simp
qed

lemma phase_artifacts_loop_returns:
  "list_all wf_artifact items \<Longrightarrow> \<exists>m'. phase_artifacts_loop items ph m = Inr m'"
proof (induction items arbitrary: m)
  case Nil
  then show ?case by simp
next
  case (Cons a items)
  then have "wf_artifact a" by simp
  then obtain k where "artifact_identity a = Inr k"
    using artifact_identity_returns_iff by blast
  with Cons show ?case by (cases k) simp
qed

lemma phase_artifacts_loop_fails_on_text:
  "items \<noteq> [] \<Longrightarrow> phase_artifacts_loop (map (\<lambda>x. JStr (f x)) items) ph m = Inl AttributeError"
  by (cases items) (simp_all add: artifact_identity_def)

text \<open>The artifacts a group iterates over, when its loop goes through.\<close>

lemma group_items:
  assumes "py_iter (py_or (case map_of fields ''artifacts'' of None \<Rightarrow> JArr [] | Some v \<Rightarrow> v) (JArr [])) = Inr items"
    and "phase_artifacts_loop items ph m = Inr m'"
  shows "items = listed (JObj fields) ''artifacts''"
proof (cases "map_of fields ''artifacts''")
  case None
  with assms show ?thesis by (simp add: listed_def py_or_def)
next
  case (Some x)
  show ?thesis
  proof (cases x)
    case (JArr xs)
    with assms Some show ?thesis by (cases xs) (simp_all add: listed_def py_or_def)
  next
    case (JStr str)
    show ?thesis
    proof (cases "str = []")
      case True
      with assms Some JStr show ?thesis by (simp add: listed_def py_or_def)
    next
      case False
      then have "phase_artifacts_loop (map (\<lambda>c. JStr [c]) str) ph m = Inl AttributeError"
        by (rule phase_artifacts_loop_fails_on_text)
      with assms Some JStr False show ?thesis by (simp add: py_or_def)
    qed
  next
    case (JObj kvs)
    show ?thesis
    proof (cases "kvs = []")
      case True
      with assms Some JObj show ?thesis by (simp add: listed_def py_or_def)
    next
      case False
      then have "phase_artifacts_loop (map (\<lambda>kv. JStr (fst kv)) kvs) ph m = Inl AttributeError"
        by (rule phase_artifacts_loop_fails_on_text)
      with assms Some JObj False show ?thesis by (simp add: py_or_def)
    qed
  qed (use assms Some in \<open>simp_all add: listed_def py_or_def split: if_splits\<close>)
qed

lemma phases_loop_fold:
  "phases_loop groups m = Inr m' \<Longrightarrow>
   m' = fold (\<lambda>e. fmupd (fst e) (snd e)) (concat (map group_entries groups)) m"
proof (induction groups arbitrary: m)
  case Nil
  then show ?case by simp
next
  case (Cons p groups)
  from Cons.prems obtain fields where p: "p = JObj fields"
    by (cases p) simp_all
  define ph where "ph = (case map_of fields ''phase'' of None \<Rightarrow> JStr [] | Some x \<Rightarrow> x)"
  from Cons.prems p obtain items m1 where
    it: "py_iter (py_or (case map_of fields ''artifacts'' of None \<Rightarrow> JArr [] | Some v \<Rightarrow> v) (JArr [])) = Inr items"
    and inner: "phase_artifacts_loop items ph m = Inr m1"
    and rest: "phases_loop groups m1 = Inr m'"
    by (auto simp: ph_def split: sum.splits)
  have items: "items = listed p ''artifacts''"
    unfolding p using it inner by (rule group_items)
  have ge: "group_entries p =
      concat (map (\<lambda>a. case artifact_identity a of
                          Inr k \<Rightarrow> (if fst k \<noteq> [] \<and> snd k \<noteq> [] \<and> py_truthy ph
                                    then [(k, ph)] else [])
                        | Inl e \<Rightarrow> []) (listed p ''artifacts''))"
    unfolding group_entries_def p json.case ph_def [symmetric]
    unfolding Let_def ..
  have "m1 = fold (\<lambda>e. fmupd (fst e) (snd e)) (group_entries p) m"
    using phase_artifacts_loop_fold [OF inner]
    unfolding items ge .
  with Cons.IH [OF rest] show ?case by simp
qed

lemma phases_loop_fails_on_text:
  "items \<noteq> [] \<Longrightarrow> phases_loop (map (\<lambda>x. JStr (f x)) items) m = Inl AttributeError"
  by (cases items) simp_all

lemma to_phase_map_loop:
  assumes "to_phase_map d = Inr m"
  shows "phases_loop (listed d ''kill_chain_mapping'') fmempty = Inr m"
proof (cases d)
  case (JObj fields)
  show ?thesis
  proof (cases "map_of fields ''kill_chain_mapping''")
    case None
    with assms JObj show ?thesis by (simp add: to_phase_map_def listed_def)
  next
    case (Some x)
    show ?thesis
    proof (cases x)
      case (JArr xs)
      with assms JObj Some show ?thesis by (simp add: to_phase_map_def listed_def)
    next
      case (JStr str)
      have "str = []"
      proof (rule ccontr)
        assume "str \<noteq> []"
        then have "phases_loop (map (\<lambda>c. JStr [c]) str) fmempty = Inl AttributeError"
          by (rule phases_loop_fails_on_text)
        with assms JObj Some JStr show False by (simp add: to_phase_map_def)
      qed
      with assms JObj Some JStr show ?thesis by (simp add: to_phase_map_def listed_def)
    next
      case (JObj kvs)
      have "kvs = []"
      proof (rule ccontr)
        assume "kvs \<noteq> []"
        then have "phases_loop (map (\<lambda>kv. JStr (fst kv)) kvs) fmempty = Inl AttributeError"
          by (rule phases_loop_fails_on_text)
        with assms \<open>d = JObj fields\<close> Some JObj show False by (simp add: to_phase_map_def)
      qed
      with assms \<open>d = JObj fields\<close> Some JObj show ?thesis
        by (simp add: to_phase_map_def listed_def)
    qed (use assms JObj Some in \<open>simp_all add: to_phase_map_def\<close>)
  qed
qed (use assms in \<open>simp_all add: to_phase_map_def listed_def\<close>)

lemma wf_group_step:
  assumes "wf_group p"
  shows "\<exists>ph items. py_get p ''phase'' (JStr []) = Inr ph \<and>
     (\<exists>ga. py_get p ''artifacts'' (JArr []) = Inr ga \<and> py_iter (py_or ga (JArr [])) = Inr items) \<and>
     list_all wf_artifact items"
proof -
  from assms obtain fields where p: "p = JObj fields"
    by (cases p) (simp_all add: wf_group_def)
  show ?thesis
  proof (cases "map_of fields ''artifacts''")
    case None
    then show ?thesis by (simp add: p py_or_def)
  next
    case (Some x)
    with assms p show ?thesis
      by (cases x) (auto simp: wf_group_def py_or_def)
  qed
qed

lemma phases_loop_returns:
  "list_all wf_group groups \<Longrightarrow> \<exists>m'. phases_loop groups m = Inr m'"
proof (induction groups arbitrary: m)
  case Nil
  then show ?case by simp
next
  case (Cons p groups)
  then have "wf_group p" by simp
  from wf_group_step [OF this] obtain ph items ga where
    "py_get p ''phase'' (JStr []) = Inr ph"
    "py_get p ''artifacts'' (JArr []) = Inr ga" "py_iter (py_or ga (JArr [])) = Inr items"
    "list_all wf_artifact items"
    by blast
  moreover from this obtain m1 where "phase_artifacts_loop items ph m = Inr m1"
    using phase_artifacts_loop_returns by blast
  moreover from Cons obtain m2 where "phases_loop groups m1 = Inr m2"
    by auto
  ultimately show ?case by simp
qed

lemma to_phase_map_returns:
  assumes "wf_container d ''kill_chain_mapping''"
    and "list_all wf_group (listed d ''kill_chain_mapping'')"
  shows "\<exists>m. to_phase_map d = Inr m"
proof -
  have "to_phase_map d = phases_loop (listed d ''kill_chain_mapping'') fmempty"
    using assms(1)
    by (auto simp: to_phase_map_def wf_container_def listed_def split: json.splits option.splits)
  then show ?thesis using phases_loop_returns [OF assms(2)] by simp
qed

text \<open>
  Claim C6. For every document whose \<open>kill_chain_mapping\<close> lists phase groups in
  order, the map built by \<open>to_phase_map\<close> assigns each normalised identity pair the
  phase of its last entry in list order (the later group wins), where entries with an
  empty phase, an empty normalised type or an empty normalised value are skipped
  entirely. The map is built (nothing is raised) when the groups are well formed.
\<close>

theorem to_phase_map_last_write_wins:
  "(wf_container d ''kill_chain_mapping'' \<and> list_all wf_group (listed d ''kill_chain_mapping'') \<longrightarrow>
      (\<exists>m. to_phase_map d = Inr m)) \<and>
   (\<forall>m. to_phase_map d = Inr m \<longrightarrow> (\<forall>k. fmlookup m k = last_phase (phase_entries d) k))"
proof (intro conjI impI allI)
  assume "wf_container d ''kill_chain_mapping'' \<and> list_all wf_group (listed d ''kill_chain_mapping'')"
  then show "\<exists>m. to_phase_map d = Inr m"
    using to_phase_map_returns by blast
next
  fix m k
  assume "to_phase_map d = Inr m"
  then have "phases_loop (listed d ''kill_chain_mapping'') fmempty = Inr m"
    by (rule to_phase_map_loop)
  then have "m = fold (\<lambda>e. fmupd (fst e) (snd e)) (phase_entries d) fmempty"
    unfolding phase_entries_def by (rule phases_loop_fold)
  then show "fmlookup m k = last_phase (phase_entries d) k"
    by (simp add: fold_fmupd_lookup split: option.splits)
qed

theorem to_phase_map_last_write_wins_witness:
  "wf_container
     (JObj [(''kill_chain_mapping'', JArr [
        JObj [(''phase'', JStr ''Initial Access''),
              (''artifacts'', JArr [JObj [(''type'', JStr ''ip''), (''value'', JStr ''1.2.3.4'')]])],
        JObj [(''phase'', JStr ''Persistence''),
              (''artifacts'', JArr [JObj [(''type'', JStr ''ip''), (''value'', JStr ''1.2.3.4'')]])]])])
     ''kill_chain_mapping'' \<and>
   list_all wf_group (listed
     (JObj [(''kill_chain_mapping'', JArr [
        JObj [(''phase'', JStr ''Initial Access''),
              (''artifacts'', JArr [JObj [(''type'', JStr ''ip''), (''value'', JStr ''1.2.3.4'')]])],
        JObj [(''phase'', JStr ''Persistence''),
              (''artifacts'', JArr [JObj [(''type'', JStr ''ip''), (''value'', JStr ''1.2.3.4'')]])]])])
     ''kill_chain_mapping'') \<and>
   (\<exists>m. to_phase_map
     (JObj [(''kill_chain_mapping'', JArr [
        JObj [(''phase'', JStr ''Initial Access''),
              (''artifacts'', JArr [JObj [(''type'', JStr ''ip''), (''value'', JStr ''1.2.3.4'')]])],
        JObj [(''phase'', JStr ''Persistence''),
              (''artifacts'', JArr [JObj [(''type'', JStr ''ip''), (''value'', JStr ''1.2.3.4'')]])]])]) = Inr m \<and>
      fmlookup m (''ip'', ''1.2.3.4'') = Some (JStr ''Persistence'') \<and>
      fmlookup m (''ip'', ''4.3.2.1'') = None)"
proof -
  let ?a = "JObj [(''type'', JStr ''ip''), (''value'', JStr ''1.2.3.4'')]"
  let ?g1 = "JObj [(''phase'', JStr ''Initial Access''), (''artifacts'', JArr [?a])]"
  let ?g2 = "JObj [(''phase'', JStr ''Persistence''), (''artifacts'', JArr [?a])]"
  let ?D = "JObj [(''kill_chain_mapping'', JArr [?g1, ?g2])]"
  have l: "listed ?D ''kill_chain_mapping'' = [?g1, ?g2]"
    by (simp add: listed_def)
  have wf: "wf_container ?D ''kill_chain_mapping'' \<and>
      list_all wf_group (listed ?D ''kill_chain_mapping'')"
    unfolding l by (simp add: wf_container_def wf_group_def wf_artifact_def)
  from to_phase_map_last_write_wins [of ?D] wf obtain m where m: "to_phase_map ?D = Inr m"
    and look: "\<And>k. fmlookup m k = last_phase (phase_entries ?D) k"
    by blast
  have "last_phase (phase_entries ?D) (''ip'', ''1.2.3.4'') = Some (JStr ''Persistence'')"
    by code_simp
  moreover have "last_phase (phase_entries ?D) (''ip'', ''4.3.2.1'') = None"
    by code_simp
  ultimately show ?thesis using wf m look by auto
qed

section \<open>Malformed documents\<close>

text \<open>
  An artifact entry whose \<open>type\<close> is a number: \<^verbatim>\<open>(5 or '').strip()\<close> raises
  \<^verbatim>\<open>AttributeError\<close>, and \<open>to_artifact_set\<close> with it.
\<close>

theorem evaluator_raises_counterexample:
  "to_artifact_set (JObj [(''artifacts'', JArr [JObj [(''type'', JInt 5), (''value'', JStr ''x'')]])]) =
     Inl AttributeError"
  by (simp add: to_artifact_set_def artifact_identity_def py_or_def)

text \<open>
  Claim C7, as amended. For documents whose containers are absent, not dicts or lists,
  and whose listed artifact entries are dicts with \<open>type\<close> and \<open>value\<close> absent,
  falsy or text (for phase groups: dicts whose \<open>artifacts\<close> are absent, falsy or a list
  of such entries), \<open>to_artifact_set\<close> and \<open>to_phase_map\<close> raise nothing;
  \<open>precision_recall_f1\<close> and \<open>mapping_accuracy\<close> raise nothing on any sets and
  maps; a document that lists nothing gives the empty set or map, and an empty set or map
  gives the scores \<open>0.0\<close>.
\<close>

theorem evaluator_degrades_gracefully:
  "(wf_container d1 ''artifacts'' \<and> list_all wf_artifact (listed d1 ''artifacts'') \<longrightarrow>
      (\<exists>S. to_artifact_set d1 = Inr S)) \<and>
   (wf_container d2 ''kill_chain_mapping'' \<and> list_all wf_group (listed d2 ''kill_chain_mapping'') \<longrightarrow>
      (\<exists>m. to_phase_map d2 = Inr m)) \<and>
   (\<exists>p r f. precision_recall_f1 pred truth = Inr (p, r, f)) \<and>
   (\<exists>a. mapping_accuracy pred_map truth_map = Inr a) \<and>
   (wf_container d1 ''artifacts'' \<and> listed d1 ''artifacts'' = [] \<longrightarrow>
      to_artifact_set d1 = Inr {||}) \<and>
   (wf_container d2 ''kill_chain_mapping'' \<and> listed d2 ''kill_chain_mapping'' = [] \<longrightarrow>
      to_phase_map d2 = Inr fmempty) \<and>
   precision_recall_f1 {||} truth = Inr (0, 0, 0) \<and>
   precision_recall_f1 pred {||} = Inr (0, 0, 0) \<and>
   mapping_accuracy fmempty truth_map = Inr 0 \<and>
   mapping_accuracy pred_map fmempty = Inr 0"
proof (intro conjI impI)
  assume "wf_container d1 ''artifacts'' \<and> list_all wf_artifact (listed d1 ''artifacts'')"
  then show "\<exists>S. to_artifact_set d1 = Inr S"
    using to_artifact_set_returns by blast
next
  assume "wf_container d2 ''kill_chain_mapping'' \<and> list_all wf_group (listed d2 ''kill_chain_mapping'')"
  then show "\<exists>m. to_phase_map d2 = Inr m"
    using to_phase_map_returns by blast
next
  show "\<exists>p r f. precision_recall_f1 pred truth = Inr (p, r, f)"
    unfolding prf_value by blast
next
  show "\<exists>a. mapping_accuracy pred_map truth_map = Inr a"
    unfolding mapping_accuracy_value by blast
next
  assume "wf_container d1 ''artifacts'' \<and> listed d1 ''artifacts'' = []"
  then show "to_artifact_set d1 = Inr {||}"
    by (auto simp: to_artifact_set_def wf_container_def listed_def split: json.splits option.splits)
next
  assume "wf_container d2 ''kill_chain_mapping'' \<and> listed d2 ''kill_chain_mapping'' = []"
  then show "to_phase_map d2 = Inr fmempty"
    by (auto simp: to_phase_map_def wf_container_def listed_def split: json.splits option.splits)
next
  show "precision_recall_f1 {||} truth = Inr (0, 0, 0)"
    unfolding prf_value by (simp add: spec_ratio_def spec_f1_def fcard_fempty)
next
  show "precision_recall_f1 pred {||} = Inr (0, 0, 0)"
    unfolding prf_value by (simp add: spec_ratio_def spec_f1_def fcard_fempty)
next
  show "mapping_accuracy fmempty truth_map = Inr 0"
    unfolding mapping_accuracy_value by simp
next
  show "mapping_accuracy pred_map fmempty = Inr 0"
    unfolding mapping_accuracy_value by simp
qed



theorem evaluator_degrades_gracefully_witness:
  "wf_container (JObj [(''artifacts'', JArr [JObj [(''type'', JNull), (''value'', JStr ''x'')]])]) ''artifacts'' \<and>
   list_all wf_artifact
     (listed (JObj [(''artifacts'', JArr [JObj [(''type'', JNull), (''value'', JStr ''x'')]])]) ''artifacts'') \<and>
   (\<exists>S. to_artifact_set (JObj [(''artifacts'', JArr [JObj [(''type'', JNull), (''value'', JStr ''x'')]])]) = Inr S) \<and>
   wf_container (JObj [(''kill_chain_mapping'', JArr [JObj [(''phase'', JStr ''Persistence'')]])])
     ''kill_chain_mapping'' \<and>
   list_all wf_group
     (listed (JObj [(''kill_chain_mapping'', JArr [JObj [(''phase'', JStr ''Persistence'')]])])
        ''kill_chain_mapping'') \<and>
   (\<exists>m. to_phase_map (JObj [(''kill_chain_mapping'', JArr [JObj [(''phase'', JStr ''Persistence'')]])]) = Inr m)"
proof -
  define D1 where "D1 = JObj [(''artifacts'', JArr [JObj [(''type'', JNull), (''value'', JStr ''x'')]])]"
  define D2 where "D2 = JObj [(''kill_chain_mapping'', JArr [JObj [(''phase'', JStr ''Persistence'')]])]"
  have wf1: "wf_container D1 ''artifacts'' \<and> list_all wf_artifact (listed D1 ''artifacts'')"
    by (simp add: wf_container_def listed_def wf_artifact_def D1_def)
  have wf2: "wf_container D2 ''kill_chain_mapping'' \<and>
      list_all wf_group (listed D2 ''kill_chain_mapping'')"
    by (simp add: wf_container_def listed_def wf_group_def D2_def)
  from evaluator_degrades_gracefully [of D1 D2] wf1 wf2
  have "(\<exists>S. to_artifact_set D1 = Inr S) \<and> (\<exists>m. to_phase_map D2 = Inr m)"
    by blast
  with wf1 wf2 show ?thesis
    unfolding D1_def D2_def by simp
qed

section \<open>Properties of the response recovery\<close>

text \<open>\<open>py_find\<close> and \<open>py_in\<close> find first occurrences.\<close>

lemma find_from_found:
  "i \<le> length s \<Longrightarrow> prefix sub (drop i s) \<Longrightarrow> (\<forall>k<i. \<not> prefix sub (drop k s)) \<Longrightarrow>
   find_from sub s i0 = int (i0 + i)"
proof (induction s arbitrary: i i0)
  case Nil
  then show ?case by simp
next
  case (Cons c cs)
  show ?case
  proof (cases i)
    case 0
    with Cons.prems show ?thesis by simp
  next
    case (Suc i')
    with Cons.prems have no: "\<not> prefix sub (c # cs)"
      by (metis drop0 zero_less_Suc)
    have "find_from sub cs (Suc i0) = int (Suc i0 + i')"
    proof (rule Cons.IH)
      show "i' \<le> length cs" using Cons.prems Suc by simp
      show "prefix sub (drop i' cs)" using Cons.prems Suc by simp
      show "\<forall>k<i'. \<not> prefix sub (drop k cs)"
      proof (intro allI impI)
        fix k assume "k < i'"
        then have "Suc k < i" using Suc by simp
        with Cons.prems have "\<not> prefix sub (drop (Suc k) (c # cs))" by blast
        then show "\<not> prefix sub (drop k cs)" by simp
      qed
    qed
    with no Suc show ?thesis by simp
  qed
qed

lemma find_from_none:
  "(\<forall>i\<le>length s. \<not> prefix sub (drop i s)) \<Longrightarrow> find_from sub s i0 = - 1"
proof (induction s arbitrary: i0)
  case Nil
  then show ?case by auto
next
  case (Cons c cs)
  from Cons.prems have no: "\<not> prefix sub (c # cs)"
    by (metis drop0 le0)
  have "\<forall>i\<le>length cs. \<not> prefix sub (drop i cs)"
  proof (intro allI impI)
    fix i assume "i \<le> length cs"
    then have "Suc i \<le> length (c # cs)" by simp
    with Cons.prems have "\<not> prefix sub (drop (Suc i) (c # cs))" by blast
    then show "\<not> prefix sub (drop i cs)" by simp
  qed
  from Cons.IH [OF this] no show ?case by simp
qed

lemma least_occurrence:
  assumes "P (i::nat)"
  shows "\<exists>j\<le>i. P j \<and> (\<forall>k<j. \<not> P k)"
proof -
  have "P (LEAST j. P j)" using assms by (rule LeastI)
  moreover have "(LEAST j. P j) \<le> i" using assms by (rule Least_le)
  moreover have "\<forall>k<(LEAST j. P j). \<not> P k" using not_less_Least by blast
  ultimately show ?thesis by blast
qed

lemma first_occurrence_unique:
  "first_occurrence s sub start i \<Longrightarrow> first_occurrence s sub start j \<Longrightarrow> i = j"
  unfolding first_occurrence_def by (metis linorder_neqE_nat)

lemma py_find_first:
  assumes "first_occurrence s sub start i"
  shows "py_find s sub start = int i"
proof -
  from assms have le: "start \<le> i" "i \<le> length s" and p: "prefix sub (drop i s)"
    and first: "\<forall>k. start \<le> k \<and> k < i \<longrightarrow> \<not> prefix sub (drop k s)"
    unfolding first_occurrence_def by simp_all
  have "find_from sub (drop start s) start = int (start + (i - start))"
  proof (rule find_from_found)
    show "i - start \<le> length (drop start s)" using le by simp
    show "prefix sub (drop (i - start) (drop start s))" using le p by simp
    show "\<forall>k<i - start. \<not> prefix sub (drop k (drop start s))"
    proof (intro allI impI)
      fix k assume "k < i - start"
      then have "start \<le> k + start \<and> k + start < i" by simp
      with first have "\<not> prefix sub (drop (k + start) s)" by blast
      then show "\<not> prefix sub (drop k (drop start s))" by simp
    qed
  qed
  with le show ?thesis by (simp add: py_find_def)
qed

lemma first_occurrence_exists:
  assumes "start \<le> i" "i \<le> length s" "prefix sub (drop i s)"
  shows "\<exists>j. first_occurrence s sub start j"
proof -
  let ?P = "\<lambda>j. start \<le> j \<and> j \<le> length s \<and> prefix sub (drop j s)"
  from assms have "?P i" by simp
  from least_occurrence [of ?P, OF this] obtain j where
    j: "j \<le> i" "?P j" "\<forall>k<j. \<not> ?P k" by blast
  have "first_occurrence s sub start j"
    unfolding first_occurrence_def
  proof (intro conjI allI impI)
    fix k assume k: "start \<le> k \<and> k < j"
    with j(3) have "\<not> ?P k" by blast
    moreover from k j(2) have "k \<le> length s" by simp
    ultimately show "\<not> prefix sub (drop k s)" using k by simp
  qed (use j in simp_all)
  then show ?thesis ..
qed

lemma py_find_none:
  assumes "\<not> (\<exists>i. first_occurrence s sub start i)"
  shows "py_find s sub start = - 1"
proof (cases "start \<le> length s")
  case False
  then show ?thesis by (simp add: py_find_def)
next
  case True
  have "\<forall>i\<le>length (drop start s). \<not> prefix sub (drop i (drop start s))"
  proof (intro allI impI notI)
    fix i assume "i \<le> length (drop start s)" and "prefix sub (drop i (drop start s))"
    then have "start \<le> i + start" "i + start \<le> length s" "prefix sub (drop (i + start) s)"
      using True by simp_all
    then have "\<exists>j. first_occurrence s sub start j" by (rule first_occurrence_exists)
    with assms show False by blast
  qed
  then have "find_from sub (drop start s) start = - 1" by (rule find_from_none)
  with True show ?thesis by (simp add: py_find_def)
qed

lemma py_in_iff: "py_in sub s \<longleftrightarrow> (\<exists>i\<le>length s. prefix sub (drop i s))"
proof (induction s)
  case Nil
  then show ?case by simp
next
  case (Cons c cs)
  show ?case
  proof
    assume "py_in sub (c # cs)"
    then consider "prefix sub (c # cs)" | "py_in sub cs" by auto
    then show "\<exists>i\<le>length (c # cs). prefix sub (drop i (c # cs))"
    proof cases
      case 1
      then show ?thesis by (intro exI [of _ 0]) simp
    next
      case 2
      with Cons.IH obtain i where "i \<le> length cs" "prefix sub (drop i cs)" by blast
      then show ?thesis by (intro exI [of _ "Suc i"]) simp
    qed
  next
    assume "\<exists>i\<le>length (c # cs). prefix sub (drop i (c # cs))"
    then obtain i where i: "i \<le> length (c # cs)" "prefix sub (drop i (c # cs))" by blast
    show "py_in sub (c # cs)"
    proof (cases i)
      case 0
      with i show ?thesis by simp
    next
      case (Suc i')
      with i have "i' \<le> length cs" "prefix sub (drop i' cs)" by simp_all
      with Cons.IH have "py_in sub cs" by blast
      then show ?thesis by simp
    qed
  qed
qed

lemma py_in_first: "py_in sub s \<longleftrightarrow> (\<exists>i. first_occurrence s sub 0 i)"
proof
  assume "py_in sub s"
  then obtain i where "i \<le> length s" "prefix sub (drop i s)"
    unfolding py_in_iff by blast
  then show "\<exists>i. first_occurrence s sub 0 i"
    using first_occurrence_exists [of 0 i s sub] by simp
next
  assume "\<exists>i. first_occurrence s sub 0 i"
  then show "py_in sub s"
    unfolding py_in_iff first_occurrence_def by blast
qed

lemma count_artifacts_cases:
  "(countable_result j \<longrightarrow> (\<exists>n. count_artifacts j = Inr n)) \<and>
   (\<not> countable_result j \<longrightarrow>
      count_artifacts j = Inl AttributeError \<or> count_artifacts j = Inl TypeError)"
proof (cases j)
  case (JObj fields)
  show ?thesis
  proof (cases "map_of fields ''artifacts''")
    case None
    with JObj show ?thesis by (simp add: countable_result_def count_artifacts_def)
  next
    case (Some x)
    with JObj show ?thesis
      by (cases x) (simp_all add: countable_result_def count_artifacts_def)
  qed
qed (simp_all add: countable_result_def count_artifacts_def)

lemma count_artifacts_returns:
  "countable_result j \<Longrightarrow> \<exists>n. count_artifacts j = Inr n"
  using count_artifacts_cases by blast

lemma count_artifacts_fails:
  "\<not> countable_result j \<Longrightarrow> count_artifacts j = Inl AttributeError \<or> count_artifacts j = Inl TypeError"
  using count_artifacts_cases by blast

text \<open>The first attempt.\<close>

lemma parse_response_first_ok:
  assumes "loads (py_strip content) = Inr j" and "countable_result j"
  shows "snd (parse_response loads content) = Inr j"
proof -
  from assms(2) obtain n where "count_artifacts j = Inr n"
    using count_artifacts_returns by blast
  with assms(1) show ?thesis by (simp add: parse_response_def)
qed

lemma parse_response_first_crash:
  assumes "loads (py_strip content) = Inr j" and "\<not> countable_result j"
  shows "snd (parse_response loads content) = Inl AttributeError \<or>
         snd (parse_response loads content) = Inl TypeError"
  using assms(1) count_artifacts_fails [OF assms(2)] by (auto simp: parse_response_def)

lemma parse_response_first_other:
  assumes "loads (py_strip content) = Inl x" and "\<And>e. x \<noteq> JSONDecodeError e"
  shows "parse_response loads content = ([], Inl x)"
  using assms by (cases x) (auto simp: parse_response_def)

text \<open>The second attempt, on the fenced payload.\<close>

lemma parse_response_second:
  assumes first: "loads (py_strip content) = Inl (JSONDecodeError e)"
    and i: "first_occurrence (py_strip content) ''```json'' 0 i"
    and k: "first_occurrence (py_strip content) ''```'' (i + 7) k"
    and gt: "i + 7 < k"
  shows "parse_response loads content =
     (case loads (py_strip (take (k - (i + 7)) (drop (i + 7) (py_strip content)))) of
        Inr artifacts_json \<Rightarrow>
          (case count_artifacts artifacts_json of
             Inl x \<Rightarrow> ([ParseErrorLine e, RawResponseLine (py_strip content)], Inl x)
           | Inr artifact_count \<Rightarrow>
               ([ParseErrorLine e, RawResponseLine (py_strip content)] @
                  [ExtractedFromMarkdown artifact_count], Inr artifacts_json))
      | Inl (JSONDecodeError e2) \<Rightarrow>
          ([ParseErrorLine e, RawResponseLine (py_strip content)],
           Inl (PyException (''Failed to parse JSON response: '' @ e)))
      | Inl x \<Rightarrow> ([ParseErrorLine e, RawResponseLine (py_strip content)], Inl x))"
proof -
  define rt where "rt = py_strip content"
  have first': "loads rt = Inl (JSONDecodeError e)" using first by (simp add: rt_def)
  have inm: "py_in ''```json'' rt" using i py_in_first unfolding rt_def by blast
  have f1: "py_find rt ''```json'' 0 = int i" using i unfolding rt_def by (rule py_find_first)
  have f2: "py_find rt ''```'' (i + 7) = int k" using k unfolding rt_def by (rule py_find_first)
  have n: "nat (int i + 7) = i + 7" by simp
  have sl: "py_slice rt (int i + 7) (int k) = take (k - (i + 7)) (drop (i + 7) rt)"
    by (simp add: py_slice_def nat_add_distrib)
  show ?thesis
    unfolding parse_response_def Let_def rt_def [symmetric]
    using gt by (simp add: first' inm f1 n f2 sl)
qed

lemma parse_response_second_ok:
  assumes first: "loads (py_strip content) = Inl (JSONDecodeError e)"
    and empty: "loads [] = Inl (JSONDecodeError e0)"
    and payload: "fenced_payload (py_strip content) body"
    and second: "loads body = Inr j"
  shows "countable_result j \<Longrightarrow> snd (parse_response loads content) = Inr j"
    and "\<not> countable_result j \<Longrightarrow>
           snd (parse_response loads content) = Inl AttributeError \<or>
           snd (parse_response loads content) = Inl TypeError"
proof -
  from payload obtain i k where
    i: "first_occurrence (py_strip content) ''```json'' 0 i"
    and k: "first_occurrence (py_strip content) ''```'' (i + 7) k"
    and body: "body = py_strip (take (k - (i + 7)) (drop (i + 7) (py_strip content)))"
    unfolding fenced_payload_def by blast
  have "k \<noteq> i + 7"
  proof
    assume "k = i + 7"
    then have "body = []" using body by (simp add: py_strip_def)
    with second empty show False by simp
  qed
  moreover from k have "i + 7 \<le> k" unfolding first_occurrence_def by simp
  ultimately have gt: "i + 7 < k" by simp
  have eq: "parse_response loads content =
     (case count_artifacts j of
        Inl x \<Rightarrow> ([ParseErrorLine e, RawResponseLine (py_strip content)], Inl x)
      | Inr artifact_count \<Rightarrow>
          ([ParseErrorLine e, RawResponseLine (py_strip content)] @
             [ExtractedFromMarkdown artifact_count], Inr j))"
    unfolding parse_response_second
        [where loads = loads and content = content and e = e and i = i and k = k, OF first i k gt]
      body [symmetric] second by simp
  show "countable_result j \<Longrightarrow> snd (parse_response loads content) = Inr j"
    unfolding eq using count_artifacts_returns [of j] by auto
  show "\<not> countable_result j \<Longrightarrow>
           snd (parse_response loads content) = Inl AttributeError \<or>
           snd (parse_response loads content) = Inl TypeError"
    unfolding eq using count_artifacts_fails [of j] by auto
qed

text \<open>Both attempts fail: the error line and the raw text are printed, the exception carries
  the message of the first parse error.\<close>

lemma parse_response_both_fail:
  assumes first: "loads (py_strip content) = Inl (JSONDecodeError e)"
    and none: "\<forall>body. fenced_payload (py_strip content) body \<longrightarrow>
                 (\<exists>e2. loads body = Inl (JSONDecodeError e2))"
  shows "parse_response loads content =
     ([ParseErrorLine e, RawResponseLine (py_strip content)],
      Inl (PyException (''Failed to parse JSON response: '' @ e)))"
proof -
  define rt where "rt = py_strip content"
  have first': "loads rt = Inl (JSONDecodeError e)" using first by (simp add: rt_def)
  show ?thesis
  proof (cases "py_in ''```json'' rt")
    case False
    with first' show ?thesis
      unfolding parse_response_def Let_def rt_def [symmetric] by simp
  next
    case True
    then obtain i where i: "first_occurrence rt ''```json'' 0 i"
      using py_in_first by blast
    have f1: "py_find rt ''```json'' 0 = int i" using i by (rule py_find_first)
    have n: "nat (int i + 7) = i + 7" by simp
    show ?thesis
    proof (cases "\<exists>k. first_occurrence rt ''```'' (i + 7) k")
      case False
      then have "py_find rt ''```'' (i + 7) = - 1" by (rule py_find_none)
      with first' \<open>py_in ''```json'' rt\<close> show ?thesis
        unfolding parse_response_def Let_def rt_def [symmetric]
        by (simp add: f1 n)
    next
      case True
      then obtain k where k: "first_occurrence rt ''```'' (i + 7) k" by blast
      show ?thesis
      proof (cases "i + 7 < k")
        case False
        have f2: "py_find rt ''```'' (i + 7) = int k" using k by (rule py_find_first)
        from False first' \<open>py_in ''```json'' rt\<close> show ?thesis
          unfolding parse_response_def Let_def rt_def [symmetric]
          by (simp add: f1 n f2)
      next
        case True
        have "fenced_payload rt (py_strip (take (k - (i + 7)) (drop (i + 7) rt)))"
          unfolding fenced_payload_def using i k by blast
        with none obtain e2 where
          "loads (py_strip (take (k - (i + 7)) (drop (i + 7) rt))) = Inl (JSONDecodeError e2)"
          unfolding rt_def by blast
        then show ?thesis
          using parse_response_second
            [where loads = loads and content = content and e = e and i = i and k = k,
             OF first i [unfolded rt_def] k [unfolded rt_def] True]
          unfolding rt_def by simp
      qed
    qed
  qed
qed

text \<open>The outer handler.\<close>

lemma extract_artifacts_create_fails:
  assumes "create report_text = Inl x" and "\<And>n. x \<noteq> SystemExit n"
  shows "extract_artifacts create loads report_text =
     ([StageStarted, ExtractionErrorLine x], Inl (SystemExit 1))"
  using assms by (cases x) (auto simp: extract_artifacts_def exit_on_exception_def)

lemma extract_artifacts_parse_fails:
  assumes "create report_text = Inr content"
    and "parse_response loads content = (printed, Inl x)" and "\<And>n. x \<noteq> SystemExit n"
  shows "extract_artifacts create loads report_text =
     (StageStarted # printed @ [ExtractionErrorLine x], Inl (SystemExit 1))"
  using assms by (cases x) (auto simp: extract_artifacts_def exit_on_exception_def)

lemma extract_artifacts_returns:
  assumes "create report_text = Inr content"
    and "parse_response loads content = (printed, Inr j)"
  shows "extract_artifacts create loads report_text = (StageStarted # printed, Inr j)"
  using assms by (simp add: extract_artifacts_def)

text \<open>
  Claim C3. The recovery is to return the parsed object whenever a parse attempt
  succeeds, and to fail only when both attempts fail. In the re-indented reading of the
  file the response \<^verbatim>\<open>[]\<close> parses at the first attempt and is not returned: the count
  for the log line raises \<^verbatim>\<open>AttributeError\<close> and the outer handler ends the run with
  exit status 1; \<^verbatim>\<open>{"artifacts":null}\<close> parses to a dict and raises \<^verbatim>\<open>TypeError\<close>
  there. (The file as shipped does not compile at all.)
\<close>

theorem extract_artifacts_parsed_not_returned:
  \<open>loads_sample ''[]'' = Inr (JArr []) \<and>
   parse_response loads_sample ''[]'' = ([], Inl AttributeError) \<and>
   extract_artifacts Inr loads_sample ''[]'' =
     ([StageStarted, ExtractionErrorLine AttributeError], Inl (SystemExit 1)) \<and>
   loads_sample ''{"artifacts":null}'' = Inr (JObj [(''artifacts'', JNull)]) \<and>
   parse_response loads_sample ''{"artifacts":null}'' = ([], Inl TypeError) \<and>
   extract_artifacts Inr loads_sample ''{"artifacts":null}'' =
     ([StageStarted, ExtractionErrorLine TypeError], Inl (SystemExit 1))\<close>
proof (intro conjI)
  show \<open>loads_sample ''[]'' = Inr (JArr [])\<close> by code_simp
  show \<open>parse_response loads_sample ''[]'' = ([], Inl AttributeError)\<close> by code_simp
  show \<open>extract_artifacts Inr loads_sample ''[]'' =
     ([StageStarted, ExtractionErrorLine AttributeError], Inl (SystemExit 1))\<close> by code_simp
  show \<open>loads_sample ''{"artifacts":null}'' = Inr (JObj [(''artifacts'', JNull)])\<close> by code_simp
  show \<open>parse_response loads_sample ''{"artifacts":null}'' = ([], Inl TypeError)\<close> by code_simp
  show \<open>extract_artifacts Inr loads_sample ''{"artifacts":null}'' =
     ([StageStarted, ExtractionErrorLine TypeError], Inl (SystemExit 1))\<close> by code_simp
qed

text \<open>The examples of the specification, in the same reading.\<close>

lemma parse_response_examples:
  \<open>snd (parse_response loads_sample ''{"a":1}'') = Inr (JObj [(''a'', JInt 1)])\<close>
  \<open>snd (parse_response loads_sample ''Here you go:\<newline>```json\<newline>{"a":1}\<newline>```\<newline>'') =
     Inr (JObj [(''a'', JInt 1)])\<close>
  \<open>parse_response loads_sample ''not json at all'' =
     ([ParseErrorLine ''Expecting value: line 1 column 1 (char 0)'',
       RawResponseLine ''not json at all''],
      Inl (PyException ''Failed to parse JSON response: Expecting value: line 1 column 1 (char 0)''))\<close>
  by code_simp+

end
